theory Spec2Isabelle
  imports Main "HOL-Library.Sublist"
begin

section \<open>The Go runtime, as far as the catalog converter uses it\<close>

text \<open>
  A Go \<open>string\<close> is a sequence of bytes; \<open>len\<close> and slicing count bytes. It is modelled as
  \<^typ>\<open>string\<close>, one \<^typ>\<open>char\<close> per byte. Indices are natural numbers: every index the
  program computes is a sum of results of \<open>strings.Index\<close> that were checked against \<open>-1\<close>.

  A run-time panic is a value: every function that slices or indexes returns
  \<open>panic + 'a\<close>, with \<open>Inl\<close> for the panic.
\<close>

datatype panic = SliceBoundsOutOfRange | IndexOutOfRange

definition and_then :: "panic + 'a \<Rightarrow> ('a \<Rightarrow> panic + 'b) \<Rightarrow> panic + 'b" where
  "and_then r f = (case r of Inl p \<Rightarrow> Inl p | Inr x \<Rightarrow> f x)"

text \<open>\<open>s[lo:hi]\<close>; \<open>s[lo:]\<close> is \<open>go_slice s lo (length s)\<close>.\<close>

definition go_slice :: "'a list \<Rightarrow> nat \<Rightarrow> nat \<Rightarrow> panic + 'a list" where
  "go_slice s lo hi =
     (if lo \<le> hi \<and> hi \<le> length s then Inr (take (hi - lo) (drop lo s))
      else Inl SliceBoundsOutOfRange)"

text \<open>\<open>xs[i]\<close>.\<close>

definition go_index :: "'a list \<Rightarrow> nat \<Rightarrow> panic + 'a" where
  "go_index xs i = (if i < length xs then Inr (xs ! i) else Inl IndexOutOfRange)"

text \<open>
  The text of a string is UTF-8: a character is one byte outside \<open>0x80\<close> to \<open>0xBF\<close>,
  followed by the continuation bytes \<open>0x80\<close> to \<open>0xBF\<close> that belong to it. \<open>characters s\<close>
  counts the characters of \<open>s\<close>, where \<open>length s\<close> counts its bytes.
\<close>

definition utf8_continuation :: "char \<Rightarrow> bool" where
  "utf8_continuation c \<longleftrightarrow> (128::nat) \<le> of_char c \<and> (of_char c :: nat) < 192"

definition characters :: "string \<Rightarrow> nat" where
  "characters s = length (filter (\<lambda>c. \<not> utf8_continuation c) s)"

text \<open>
  A Go map is a finite partial function. \<open>for k, v := range m\<close> visits every key once, in an
  order the language leaves open and changes from run to run. The order of one such loop is a
  parameter of the model: \<open>go_range m order\<close> lists the entries of \<open>m\<close> in that order, and
  \<open>range_order m order\<close> says that \<open>order\<close> is one of the orders the runtime may choose.
\<close>

definition go_range :: "('k \<rightharpoonup> 'v) \<Rightarrow> 'k list \<Rightarrow> ('k \<times> 'v) list" where
  "go_range m order = List.map_filter (\<lambda>k. map_option (Pair k) (m k)) order"

definition range_order :: "('k \<rightharpoonup> 'v) \<Rightarrow> 'k list \<Rightarrow> bool" where
  "range_order m order \<longleftrightarrow> distinct order \<and> set order = dom m"

text \<open>A loop that appends one element per iteration, and stops at the first panic.\<close>

fun collect :: "('a \<Rightarrow> panic + 'b) \<Rightarrow> 'a list \<Rightarrow> panic + 'b list" where
  "collect f [] = Inr []"
| "collect f (x # xs) =
     (case f x of Inl p \<Rightarrow> Inl p
      | Inr y \<Rightarrow> (case collect f xs of Inl p \<Rightarrow> Inl p | Inr ys \<Rightarrow> Inr (y # ys)))"

subsection \<open>Package \<open>strings\<close>\<close>

text \<open>
  \<open>strings.Index(s, substr)\<close>: the index of the first instance of \<open>substr\<close> in \<open>s\<close>;
  \<open>None\<close> stands for the result \<open>-1\<close>.
\<close>

fun strings_Index :: "string \<Rightarrow> string \<Rightarrow> nat option" where
  "strings_Index [] substr = (if substr = [] then Some 0 else None)"
| "strings_Index (c # cs) substr =
     (if prefix substr (c # cs) then Some 0 else map_option Suc (strings_Index cs substr))"

definition strings_Contains :: "string \<Rightarrow> string \<Rightarrow> bool" where
  "strings_Contains s substr \<longleftrightarrow> strings_Index s substr \<noteq> None"

definition strings_HasPrefix :: "string \<Rightarrow> string \<Rightarrow> bool" where
  "strings_HasPrefix s pre \<longleftrightarrow> prefix pre s"

text \<open>
  \<open>strings.ReplaceAll(s, old, new)\<close> replaces the non-overlapping instances of \<open>old\<close>, found
  from left to right. The program calls it with a non-empty \<open>old\<close> only; the model says
  nothing about an empty one.
\<close>

fun strings_ReplaceAll :: "string \<Rightarrow> string \<Rightarrow> string \<Rightarrow> string" where
  "strings_ReplaceAll [] (a # as) new = []"
| "strings_ReplaceAll (c # cs) (a # as) new =
     (if prefix (a # as) (c # cs)
      then new @ strings_ReplaceAll (drop (length (a # as)) (c # cs)) (a # as) new
      else c # strings_ReplaceAll cs (a # as) new)"

text \<open>
  The loop of \<open>strings.genSplit\<close> for a non-empty separator, with \<open>n\<close> the number of cuts
  still allowed: cut at the first instance of \<open>sep\<close>, go on behind it, and end with the rest.
\<close>

fun genSplit :: "string \<Rightarrow> string \<Rightarrow> nat \<Rightarrow> string list" where
  "genSplit s (a # as) 0 = [s]"
| "genSplit s (a # as) (Suc n) =
     (case strings_Index s (a # as) of
        None \<Rightarrow> [s]
      | Some m \<Rightarrow> take m s # genSplit (drop (m + length (a # as)) s) (a # as) n)"

text \<open>
  \<open>strings.Split(s, sep)\<close> cuts at every instance; there are at most \<open>len(s)\<close> of them.
  \<open>strings.SplitN(s, sep, n)\<close> returns at most \<open>n\<close> pieces, none for \<open>n = 0\<close> and all of
  them for a negative \<open>n\<close>.
\<close>

definition strings_Split :: "string \<Rightarrow> string \<Rightarrow> string list" where
  "strings_Split s sep = genSplit s sep (length s)"

definition strings_SplitN :: "string \<Rightarrow> string \<Rightarrow> int \<Rightarrow> string list" where
  "strings_SplitN s sep n =
     (if n = 0 then [] else if n < 0 then strings_Split s sep else genSplit s sep (nat n - 1))"

section \<open>Data model\<close>

text \<open>
  A value decoded from JSON into \<open>interface{}\<close>. A nil map and an empty map read alike and
  are both left out by \<open>omitempty\<close>; both are \<^term>\<open>Map.empty\<close>. A nil slice is \<open>[]\<close>.
\<close>

typedecl float64

datatype json =
    JNull
  | JBool bool
  | JNumber float64
  | JString string
  | JArray "json list"
  | JObject "string \<Rightarrow> json option"

subsection \<open>Docker catalog structures (input)\<close>

record Tool =
  Name :: string

record Metadata =
  Pulls :: int
  Stars :: int
  GitHubStars :: int
  Category :: string
  Tags :: "string list"
  License :: string
  Owner :: string

record Secret =
  Name :: string
  Env :: string
  Example :: string

record EnvVar =
  Name :: string
  Value :: string

record Config =
  Name :: string
  Description :: string
  Type :: string
  Properties :: "string \<rightharpoonup> json"
  Required :: "string list"

record Remote =
  TransportType :: string
  URL :: string
  Headers :: "string \<rightharpoonup> string"

record OAuthProvider =
  Provider :: string
  Secret :: string
  Env :: string

record OAuth =
  Providers :: "OAuthProvider list"

record DockerCatalogEntry =
  Description :: string
  Title :: string
  Type :: string
  DateAdded :: string
  Image :: string
  Ref :: string
  Readme :: string
  ToolsURL :: string
  Source :: string
  Upstream :: string
  Icon :: string
  Tools :: "Tool list"
  Prompts :: int
  Resources :: "string \<rightharpoonup> json"
  Metadata :: Metadata
  Secrets :: "Secret list"
  Env :: "EnvVar list"
  Command :: "string list"
  Volumes :: "string list"
  Config :: "Config list"
  Remote :: "Remote option"
  User :: string
  LongLived :: bool
  AllowHosts :: "string list"
  OAuth :: "OAuth option"

subsection \<open>Registry schema structures (output)\<close>

record InputSchema =
  IsSecret :: bool
  IsRequired :: bool
  Format :: string
  Description :: string

record KeyValueInput =
  Name :: string
  Value :: string
  Description :: string
  IsRequired :: bool
  IsSecret :: bool
  IsRepeated :: bool
  Variables :: "string \<rightharpoonup> InputSchema"

record Argument =
  Type :: string
  Name :: string
  Value :: string
  IsRequired :: bool
  IsSecret :: bool
  IsRepeated :: bool
  Variables :: "string \<rightharpoonup> InputSchema"

record Transport =
  Type :: string
  URL :: string
  Headers :: "KeyValueInput list"

record Package =
  RegistryType :: string
  Transport :: Transport
  Identifier :: string
  Version :: string
  EnvironmentVariables :: "KeyValueInput list"
  PackageArguments :: "Argument list"
  RuntimeArguments :: "Argument list"
  RuntimeHint :: string

record Repository =
  URL :: string
  Source :: string
  Subfolder :: string

text \<open>The values that \<open>transformEntry\<close> stores as \<open>interface{}\<close> in the metadata bag.\<close>

datatype meta_value =
    MInt int
  | MString string
  | MStrings "string list"
  | MTools "Tool list"
  | MResources "string \<Rightarrow> json option"

record RegistryServer =
  Schema :: string
  Name :: string
  Description :: string
  Version :: string
  Packages :: "Package list"
  Remotes :: "Transport list"
  Repository :: "Repository option"
  WebsiteURL :: string
  Meta :: "string \<rightharpoonup> (string \<rightharpoonup> meta_value)"

subsection \<open>Zero values\<close>

text \<open>
  A composite literal sets the fields it names and leaves the others at their zero value; it
  is written here as an update of the zero value of its type.
\<close>

definition zero_InputSchema :: InputSchema where
  "zero_InputSchema =
     \<lparr>InputSchema.IsSecret = False, InputSchema.IsRequired = False,
      InputSchema.Format = [], InputSchema.Description = []\<rparr>"

definition zero_KeyValueInput :: KeyValueInput where
  "zero_KeyValueInput =
     \<lparr>KeyValueInput.Name = [], KeyValueInput.Value = [], KeyValueInput.Description = [],
      KeyValueInput.IsRequired = False, KeyValueInput.IsSecret = False,
      KeyValueInput.IsRepeated = False, KeyValueInput.Variables = Map.empty\<rparr>"

definition zero_Argument :: Argument where
  "zero_Argument =
     \<lparr>Argument.Type = [], Argument.Name = [], Argument.Value = [],
      Argument.IsRequired = False, Argument.IsSecret = False,
      Argument.IsRepeated = False, Argument.Variables = Map.empty\<rparr>"

definition zero_Transport :: Transport where
  "zero_Transport = \<lparr>Transport.Type = [], Transport.URL = [], Transport.Headers = []\<rparr>"

definition zero_Package :: Package where
  "zero_Package =
     \<lparr>Package.RegistryType = [], Package.Transport = zero_Transport, Package.Identifier = [],
      Package.Version = [], Package.EnvironmentVariables = [], Package.PackageArguments = [],
      Package.RuntimeArguments = [], Package.RuntimeHint = []\<rparr>"

definition zero_Repository :: Repository where
  "zero_Repository =
     \<lparr>Repository.URL = [], Repository.Source = [], Repository.Subfolder = []\<rparr>"

definition zero_RegistryServer :: RegistryServer where
  "zero_RegistryServer =
     \<lparr>RegistryServer.Schema = [], RegistryServer.Name = [], RegistryServer.Description = [],
      RegistryServer.Version = [], RegistryServer.Packages = [], RegistryServer.Remotes = [],
      RegistryServer.Repository = None, RegistryServer.WebsiteURL = [],
      RegistryServer.Meta = Map.empty\<rparr>"

section \<open>The converter\<close>

text \<open>
  The order in which the \<open>range\<close> loops of one call of \<open>transformEntry\<close> visit their maps:
  the properties of the \<open>i\<close>-th config block (in \<open>buildConfigMap\<close>), and the headers of the
  remote.
\<close>

record RangeOrders =
  PropertiesOrder :: "nat \<Rightarrow> string list"
  HeadersOrder :: "string list"

text \<open>
  The orders the runtime may choose in a call \<open>transformEntry(name, entry)\<close>: each loop
  visits every key of its map once.
\<close>

definition valid_orders :: "DockerCatalogEntry \<Rightarrow> RangeOrders \<Rightarrow> bool" where
  "valid_orders entry order \<longleftrightarrow>
     (\<forall>i < length (Config entry).
        range_order (Properties (Config entry ! i)) (PropertiesOrder order i)) \<and>
     (\<forall>remote. Remote entry = Some remote \<longrightarrow>
        range_order (Remote.Headers remote) (HeadersOrder order))"

type_synonym config_map = "string \<rightharpoonup> (string \<rightharpoonup> json)"

subsection \<open>\<open>buildConfigMap\<close>\<close>

text \<open>The body of the inner loop: one property of the block \<open>cfg\<close>.\<close>

definition addProperty :: "Config \<Rightarrow> string \<times> json \<Rightarrow> config_map \<Rightarrow> config_map" where
  "addProperty cfg kv result =
     (let fullKey = Config.Name cfg @ ''.'' @ fst kv in
      case snd kv of
        JObject propMap \<Rightarrow> result(fullKey \<mapsto> propMap)
      | _ \<Rightarrow> result)"

text \<open>The outer loop, at the \<open>i\<close>-th block.\<close>

fun buildConfigMap_from ::
  "(nat \<Rightarrow> string list) \<Rightarrow> nat \<Rightarrow> Config list \<Rightarrow> config_map \<Rightarrow> config_map" where
  "buildConfigMap_from order i [] result = result"
| "buildConfigMap_from order i (cfg # configs) result =
     buildConfigMap_from order (Suc i) configs
       (fold (addProperty cfg) (go_range (Properties cfg) (order i)) result)"

definition buildConfigMap :: "(nat \<Rightarrow> string list) \<Rightarrow> Config list \<Rightarrow> config_map" where
  "buildConfigMap order configs = buildConfigMap_from order 0 configs Map.empty"

subsection \<open>\<open>convertBraces\<close> and \<open>extractVars\<close>\<close>

definition convertBraces :: "string \<Rightarrow> string" where
  "convertBraces v =
     (let result = strings_ReplaceAll v ''{{'' ''{'';
          result = strings_ReplaceAll result ''}}'' ''}''
      in result)"

text \<open>
  The schema of one variable: \<open>isSecret = false\<close>, format \<open>string\<close>, and the description of
  the config property of that name, when it has one that is a string.
\<close>

definition inputSchemaFor :: "config_map \<Rightarrow> string \<Rightarrow> InputSchema" where
  "inputSchemaFor configMap varName =
     (let inputSchema = zero_InputSchema
            \<lparr>InputSchema.IsSecret := False, InputSchema.Format := ''string''\<rparr>
      in case configMap varName of
           Some configProp \<Rightarrow>
             (case configProp ''description'' of
                Some (JString desc) \<Rightarrow> inputSchema\<lparr>InputSchema.Description := desc\<rparr>
              | _ \<Rightarrow> inputSchema)
         | None \<Rightarrow> inputSchema)"

text \<open>
  The loop of \<open>extractVars\<close>, entered with the scan position \<open>start\<close> and the variables found
  so far. A \<open>break\<close> returns the variables.
\<close>

function extractVars_loop ::
  "string \<Rightarrow> config_map \<Rightarrow> nat \<Rightarrow> (string \<rightharpoonup> InputSchema)
     \<Rightarrow> panic + (string \<rightharpoonup> InputSchema)" where
  "extractVars_loop v configMap start variables =
     (case go_slice v start (length v) of
        Inl p \<Rightarrow> Inl p
      | Inr rest \<Rightarrow>
     (case strings_Index rest ''{{'' of
        None \<Rightarrow> Inr variables
      | Some i \<Rightarrow>
     (let idx = i + start in
      case go_slice v idx (length v) of
        Inl p \<Rightarrow> Inl p
      | Inr rest' \<Rightarrow>
     (case strings_Index rest' ''}}'' of
        None \<Rightarrow> Inr variables
      | Some e \<Rightarrow>
     (let endIdx = e + idx in
      case go_slice v (idx + 2) endIdx of
        Inl p \<Rightarrow> Inl p
      | Inr varContent \<Rightarrow>
     (let parts = strings_Split varContent ''|'' in
      case go_index parts 0 of
        Inl p \<Rightarrow> Inl p
      | Inr varName \<Rightarrow>
          extractVars_loop v configMap (endIdx + 2)
            (variables(varName \<mapsto> inputSchemaFor configMap varName))))))))"
  by pat_completeness auto
termination
proof (relation "measure (\<lambda>(v, configMap, start, variables). length v - start)")
  show "wf (measure (\<lambda>(v, configMap, start, variables). length v - start))"
    by simp
next
  fix v :: string and configMap :: config_map and start :: nat
    and variables :: "string \<rightharpoonup> InputSchema" and rest i idx rest' e endIdx
  assume rest: "go_slice v start (length v) = Inr rest"
    and idx: "idx = i + start"
    and rest': "go_slice v idx (length v) = Inr rest'"
    and e: "strings_Index rest' ''}}'' = Some e"
    and endIdx: "endIdx = e + idx"
  have found: "m + length sub \<le> length s" if "strings_Index s sub = Some m" for s sub m
    using that
  proof (induction s arbitrary: m)
    case Nil
    then show ?case by (simp split: if_splits)
  next
    case (Cons c cs)
    then show ?case by (auto dest: prefix_length_le split: if_splits)
  qed
  have "idx \<le> length v" "rest' = drop idx v"
    using rest' by (auto simp: go_slice_def split: if_splits)
  moreover have "e + 2 \<le> length rest'"
    using found [OF e] by simp
  ultimately have "endIdx + 2 \<le> length v"
    using endIdx by simp
  then show "((v, configMap, endIdx + 2, variables(varName \<mapsto> inputSchemaFor configMap varName)),
              (v, configMap, start, variables))
             \<in> measure (\<lambda>(v, configMap, start, variables). length v - start)" for varName
    using idx endIdx by simp
qed

declare extractVars_loop.simps [simp del]

definition extractVars :: "string \<Rightarrow> config_map \<Rightarrow> panic + (string \<rightharpoonup> InputSchema)" where
  "extractVars v configMap = extractVars_loop v configMap 0 Map.empty"

subsection \<open>\<open>transformEntry\<close>\<close>

text \<open>The description, cut to 100 bytes (lines 212 to 215).\<close>

definition truncateDescription :: "string \<Rightarrow> panic + string" where
  "truncateDescription description =
     (if length description > 100
      then and_then (go_slice description 0 97) (\<lambda>head. Inr (head @ ''...''))
      else Inr description)"

text \<open>The metadata bag (lines 227 to 248).\<close>

definition publisherProvided :: "DockerCatalogEntry \<Rightarrow> (string \<rightharpoonup> meta_value)" where
  "publisherProvided entry =
     (let provided =
            [''pulls'' \<mapsto> MInt (Pulls (Metadata entry)),
             ''githubStars'' \<mapsto> MInt (GitHubStars (Metadata entry)),
             ''category'' \<mapsto> MString (Category (Metadata entry)),
             ''tags'' \<mapsto> MStrings (Tags (Metadata entry)),
             ''license'' \<mapsto> MString (License (Metadata entry)),
             ''owner'' \<mapsto> MString (Owner (Metadata entry)),
             ''tools'' \<mapsto> MTools (Tools entry),
             ''source'' \<mapsto> MString (DockerCatalogEntry.Source entry),
             ''icon'' \<mapsto> MString (Icon entry),
             ''prompts'' \<mapsto> MInt (Prompts entry),
             ''title'' \<mapsto> MString (Title entry),
             ''readme'' \<mapsto> MString (Readme entry),
             ''toolsUrl'' \<mapsto> MString (ToolsURL entry),
             ''dateAdded'' \<mapsto> MString (DateAdded entry),
             ''upstream'' \<mapsto> MString (Upstream entry),
             ''resources'' \<mapsto> MResources (Resources entry)]
      in if Stars (Metadata entry) > 0
         then provided(''stars'' \<mapsto> MInt (Stars (Metadata entry)))
         else provided)"

text \<open>The transport of a remote entry (lines 255 to 267); \<open>order\<close> is the order in which
  the loop visits the headers.\<close>

definition remoteTransport :: "string list \<Rightarrow> Remote \<Rightarrow> Transport" where
  "remoteTransport order remote =
     (let transport = zero_Transport
            \<lparr>Transport.Type := TransportType remote, Transport.URL := Remote.URL remote\<rparr>
      in fold (\<lambda>kv transport.
                 transport\<lparr>Transport.Headers := Transport.Headers transport @
                   [zero_KeyValueInput
                      \<lparr>KeyValueInput.Name := fst kv, KeyValueInput.Value := snd kv\<rparr>]\<rparr>)
           (go_range (Remote.Headers remote) order) transport)"

text \<open>One environment variable (the loop body, lines 288 to 302).\<close>

definition envKeyValue :: "config_map \<Rightarrow> EnvVar \<Rightarrow> panic + KeyValueInput" where
  "envKeyValue configMap env =
     (let val = convertBraces (EnvVar.Value env);
          kv = zero_KeyValueInput
            \<lparr>KeyValueInput.Name := EnvVar.Name env, KeyValueInput.Value := val\<rparr>
      in if strings_Contains (EnvVar.Value env) ''{{''
         then and_then (extractVars (EnvVar.Value env) configMap) (\<lambda>variables.
                if dom variables \<noteq> {}
                then Inr (kv\<lparr>KeyValueInput.Variables := variables,
                              KeyValueInput.IsRepeated := False\<rparr>)
                else Inr kv)
         else Inr kv)"

text \<open>One secret (the loop body, lines 308 to 319).\<close>

definition secretKeyValue :: "Secret \<Rightarrow> KeyValueInput" where
  "secretKeyValue secret =
     (let varName = Secret.Name secret
      in zero_KeyValueInput
           \<lparr>KeyValueInput.Name := Secret.Env secret,
            KeyValueInput.Value := ''{'' @ varName @ ''}'',
            KeyValueInput.Variables :=
              [varName \<mapsto> zero_InputSchema
                 \<lparr>InputSchema.IsSecret := True, InputSchema.IsRequired := True\<rparr>]\<rparr>)"

text \<open>One command token (the loop body, lines 325 to 343).\<close>

definition commandArgument :: "config_map \<Rightarrow> string \<Rightarrow> panic + Argument" where
  "commandArgument configMap cmd =
     (let arg = zero_Argument
      in if strings_HasPrefix cmd ''--''
         then
           (let parts = strings_SplitN cmd ''='' 2;
                arg = arg\<lparr>Argument.Type := ''named''\<rparr>
            in and_then (go_index parts 0) (\<lambda>part0.
               let arg = arg\<lparr>Argument.Name := part0\<rparr>
               in if length parts > 1
                  then and_then (go_index parts 1) (\<lambda>part1.
                       let arg = arg\<lparr>Argument.Value := convertBraces part1\<rparr>
                       in if strings_Contains part1 ''{{''
                          then and_then (extractVars part1 configMap) (\<lambda>variables.
                                 Inr (arg\<lparr>Argument.Variables := variables,
                                          Argument.IsRepeated := False\<rparr>))
                          else Inr arg)
                  else Inr arg))
         else Inr (arg\<lparr>Argument.Type := ''positional'', Argument.Value := cmd\<rparr>))"

text \<open>
  One runtime argument: a volume with the flag \<open>-v\<close> (lines 349 to 361) or the user with
  the flag \<open>-u\<close> (lines 366 to 378); the two blocks differ in the flag only.
\<close>

definition runtimeArgument :: "config_map \<Rightarrow> string \<Rightarrow> string \<Rightarrow> panic + Argument" where
  "runtimeArgument configMap flag v =
     (let val = convertBraces v;
          arg = zero_Argument
            \<lparr>Argument.Type := ''named'', Argument.Name := flag, Argument.Value := val\<rparr>
      in if strings_Contains v ''{{''
         then and_then (extractVars v configMap) (\<lambda>variables.
                Inr (arg\<lparr>Argument.Variables := variables, Argument.IsRepeated := False\<rparr>))
         else Inr arg)"

text \<open>The package of a containerized entry (lines 273 to 384).\<close>

definition entryPackage :: "config_map \<Rightarrow> DockerCatalogEntry \<Rightarrow> panic + Package" where
  "entryPackage configMap entry =
     (let pkg = zero_Package
            \<lparr>Package.RegistryType := ''oci'',
             Package.Transport := zero_Transport\<lparr>Transport.Type := ''stdio''\<rparr>\<rparr>;
          pkg = (if Image entry \<noteq> [] then pkg\<lparr>Package.Identifier := Image entry\<rparr> else pkg)
      in
      and_then (if length (DockerCatalogEntry.Env entry) > 0
                then collect (envKeyValue configMap) (DockerCatalogEntry.Env entry)
                else Inr []) (\<lambda>envs.
      let pkg = pkg\<lparr>EnvironmentVariables := EnvironmentVariables pkg @ envs\<rparr>;
          pkg = (if length (Secrets entry) > 0
                 then pkg\<lparr>EnvironmentVariables :=
                            EnvironmentVariables pkg @ map secretKeyValue (Secrets entry)\<rparr>
                 else pkg)
      in
      and_then (if length (Command entry) > 0
                then collect (commandArgument configMap) (Command entry)
                else Inr []) (\<lambda>args.
      let pkg = pkg\<lparr>PackageArguments := PackageArguments pkg @ args\<rparr>
      in
      and_then (if length (Volumes entry) > 0
                then collect (runtimeArgument configMap ''-v'') (Volumes entry)
                else Inr []) (\<lambda>vols.
      let pkg = pkg\<lparr>RuntimeArguments := RuntimeArguments pkg @ vols\<rparr>
      in
      and_then (if User entry \<noteq> []
                then and_then (runtimeArgument configMap ''-u'' (User entry)) (\<lambda>arg. Inr [arg])
                else Inr []) (\<lambda>users.
      let pkg = pkg\<lparr>RuntimeArguments := RuntimeArguments pkg @ users\<rparr>
      in Inr (if length (RuntimeArguments pkg) > 0
              then pkg\<lparr>RuntimeHint := ''docker''\<rparr>
              else pkg))))))"

text \<open>The repository reference (lines 388 to 403).\<close>

definition entryRepository :: "DockerCatalogEntry \<Rightarrow> Repository option" where
  "entryRepository entry =
     (if Upstream entry \<noteq> []
      then
        (let repoURL = Upstream entry;
             sourceID = (if strings_Contains repoURL ''github.com'' then ''github''
                         else if strings_Contains repoURL ''gitlab.com'' then ''gitlab''
                         else [])
         in Some (zero_Repository
                    \<lparr>Repository.URL := repoURL, Repository.Source := sourceID\<rparr>))
      else None)"

text \<open>
  \<open>transformEntry(name, entry)\<close>, with the orders of its \<open>range\<close> loops. The remote branch
  is taken when the type is \<open>remote\<close> and the remote is not nil; it returns at once.
\<close>

definition transformEntry :: "RangeOrders \<Rightarrow> string \<Rightarrow> DockerCatalogEntry \<Rightarrow> panic + RegistryServer" where
  "transformEntry order name entry =
     and_then (truncateDescription (DockerCatalogEntry.Description entry)) (\<lambda>description.
     let server = zero_RegistryServer
           \<lparr>RegistryServer.Schema :=
              ''https://static.modelcontextprotocol.io/schemas/2025-10-17/server.schema.json'',
            RegistryServer.Name := ''com.docker.mcp/'' @ name,
            RegistryServer.Description := description,
            RegistryServer.Version := ''v0.1.0'',
            RegistryServer.Meta := Map.empty\<rparr>;
         configMap = buildConfigMap (PropertiesOrder order) (Config entry);
         server = server\<lparr>RegistryServer.Meta := (RegistryServer.Meta server)
           (''io.modelcontextprotocol.registry/publisher-provided'' \<mapsto> publisherProvided entry)\<rparr>
     in case (if DockerCatalogEntry.Type entry = ''remote'' then Remote entry else None) of
          Some remote \<Rightarrow>
            Inr (server\<lparr>Remotes := [remoteTransport (HeadersOrder order) remote]\<rparr>)
        | None \<Rightarrow>
            and_then (entryPackage configMap entry) (\<lambda>pkg.
            let server = server\<lparr>Packages := [pkg]\<rparr>
            in Inr (case entryRepository entry of
                      Some repository \<Rightarrow>
                        server\<lparr>RegistryServer.Repository := Some repository\<rparr>
                    | None \<Rightarrow> server)))"

subsection \<open>The batch: the loop of \<open>main\<close> (lines 172 to 181)\<close>

text \<open>
  The catalog's entries, in the order in which the loop visits them, each with the orders of
  its own call of \<open>transformEntry\<close>; \<open>servers\<close> is the slice built so far.
\<close>

fun main_loop ::
  "(string \<Rightarrow> RangeOrders) \<Rightarrow> (string \<times> DockerCatalogEntry) list \<Rightarrow> RegistryServer list
     \<Rightarrow> panic + RegistryServer list" where
  "main_loop orders [] servers = Inr servers"
| "main_loop orders (ne # rest) servers =
     (if DockerCatalogEntry.Type (snd ne) = ''remote''
      then main_loop orders rest servers
      else (case transformEntry (orders (fst ne)) (fst ne) (snd ne) of
              Inl p \<Rightarrow> Inl p
            | Inr server \<Rightarrow> main_loop orders rest (servers @ [server])))"

definition main_servers ::
  "(string \<Rightarrow> RangeOrders) \<Rightarrow> string list \<Rightarrow> (string \<rightharpoonup> DockerCatalogEntry)
     \<Rightarrow> panic + RegistryServer list" where
  "main_servers orders registryOrder registry =
     main_loop orders (go_range registry registryOrder) []"

subsection \<open>Sample inputs\<close>

text \<open>The zero values of the input types, and a run in which every \<open>range\<close> loop finds an
  empty map.\<close>

definition zero_Metadata :: Metadata where
  "zero_Metadata =
     \<lparr>Pulls = 0, Stars = 0, GitHubStars = 0, Category = [], Tags = [], License = [],
      Owner = []\<rparr>"

definition zero_DockerCatalogEntry :: DockerCatalogEntry where
  "zero_DockerCatalogEntry =
     \<lparr>DockerCatalogEntry.Description = [], Title = [], DockerCatalogEntry.Type = [],
      DateAdded = [], Image = [], Ref = [], Readme = [], ToolsURL = [],
      DockerCatalogEntry.Source = [], Upstream = [], Icon = [], Tools = [], Prompts = 0,
      Resources = Map.empty, Metadata = zero_Metadata, Secrets = [],
      DockerCatalogEntry.Env = [], Command = [], Volumes = [], Config = [], Remote = None,
      User = [], LongLived = False, AllowHosts = [], OAuth = None\<rparr>"

definition no_orders :: RangeOrders where
  "no_orders = \<lparr>PropertiesOrder = (\<lambda>i. []), HeadersOrder = []\<rparr>"

section \<open>Properties\<close>

subsection \<open>Searching and cutting strings\<close>


lemma strings_Index_bound:
  "strings_Index s sub = Some m \<Longrightarrow> m + length sub \<le> length s"
proof (induction s arbitrary: m)
  case Nil
  then show ?case by (simp split: if_splits)
next
  case (Cons c cs)
  then show ?case by (auto dest: prefix_length_le split: if_splits)
qed

lemma strings_Index_prefix:
  "strings_Index s sub = Some m \<Longrightarrow> prefix sub (drop m s)"
proof (induction s arbitrary: m)
  case Nil
  then show ?case by (simp split: if_splits)
next
  case (Cons c cs)
  then show ?case by (auto split: if_splits)
qed

lemma strings_Index_first:
  "strings_Index s sub = Some m \<Longrightarrow> j < m \<Longrightarrow> \<not> prefix sub (drop j s)"
proof (induction s arbitrary: m j)
  case Nil
  then show ?case by (simp split: if_splits)
next
  case (Cons c cs)
  show ?case
  proof (cases j)
    case 0
    with Cons.prems show ?thesis by (auto split: if_splits)
  next
    case (Suc j')
    with Cons.prems Cons.IH show ?thesis by (auto split: if_splits)
  qed
qed

lemma strings_Index_None:
  "strings_Index s sub = None \<longleftrightarrow> \<not> sublist sub s"
  by (induction s) (auto simp: sublist_Cons_right)

lemma strings_Contains_sublist: "strings_Contains s sub \<longleftrightarrow> sublist sub s"
  by (simp add: strings_Contains_def strings_Index_None)

lemma go_slice_from: "go_slice s lo (length s) = Inr r \<longleftrightarrow> lo \<le> length s \<and> r = drop lo s"
  by (auto simp: go_slice_def)

lemma closing_after_opening:
  assumes "prefix ''{{'' t" and "strings_Index t ''}}'' = Some e"
  shows "2 \<le> e"
proof (rule ccontr)
  assume "\<not> 2 \<le> e"
  then consider "e = 0" | "e = 1" by linarith
  then show False
  proof cases
    case 1
    with strings_Index_prefix [OF assms(2)] assms(1) show False
      by (auto simp: prefix_def)
  next
    case 2
    with strings_Index_prefix [OF assms(2)] assms(1) show False
      by (auto simp: prefix_def)
  qed
qed


lemma scan_progress:
  assumes "go_slice v start (length v) = Inr rest"
    and "strings_Index rest ''{{'' = Some i"
    and "go_slice v (i + start) (length v) = Inr rest'"
    and "strings_Index rest' ''}}'' = Some e"
  shows "i + start + 2 \<le> e + (i + start)" and "e + (i + start) + 2 \<le> length v"
proof -
  from assms(1) have rest: "start \<le> length v" "rest = drop start v"
    by (simp_all add: go_slice_from)
  from assms(3) have rest': "i + start \<le> length v" "rest' = drop (i + start) v"
    by (simp_all add: go_slice_from)
  have "prefix ''{{'' (drop i rest)"
    using strings_Index_prefix [OF assms(2)] .
  then have "prefix ''{{'' rest'"
    using rest rest' by (simp add: add.commute)
  then have "2 \<le> e"
    using assms(4) by (rule closing_after_opening)
  then show "i + start + 2 \<le> e + (i + start)" by simp
  from strings_Index_bound [OF assms(4)] rest' show "e + (i + start) + 2 \<le> length v"
    by simp
qed

lemma extractVars_loop_total: "extractVars_loop_dom x"
proof (induction x rule: measure_induct_rule [of "\<lambda>(v, configMap, start, variables). length v - start"])
  case (less x)
  show ?case
  proof (rule accpI)
    fix y
    assume "extractVars_loop_rel y x"
    then have "(case y of (v, configMap, start, variables) \<Rightarrow> length v - start)
        < (case x of (v, configMap, start, variables) \<Rightarrow> length v - start)"
    proof (cases rule: extractVars_loop_rel.cases)
      case (1 v configMap start variables rest i idx rest' e endIdx varContent parts varName)
      then show ?thesis
        using scan_progress [of v start rest i rest' e] by simp
    qed
    then show "extractVars_loop_dom y"
      by (rule less.IH)
  qed
qed

lemma genSplit_not_Nil: "genSplit s (a # as) n \<noteq> []"
  by (cases n) (auto split: option.splits)

lemma strings_Split_not_Nil: "strings_Split s (a # as) \<noteq> []"
  by (simp add: strings_Split_def genSplit_not_Nil)

lemma extractVars_loop_returns:
  "start \<le> length v \<Longrightarrow> \<exists>vars. extractVars_loop v configMap start variables = Inr vars"
proof (induction v configMap start variables rule: extractVars_loop.induct)
  case (1 v configMap start variables)
  show ?case
  proof (cases "strings_Index (drop start v) ''{{''")
    case None
    with "1.prems" show ?thesis
      by (subst extractVars_loop.simps) (simp add: go_slice_def)
  next
    case (Some i)
    note i = this
    with strings_Index_bound [OF this] "1.prems" have idx: "i + start \<le> length v"
      by simp
    show ?thesis
    proof (cases "strings_Index (drop (i + start) v) ''}}''")
      case None
      with i idx "1.prems" show ?thesis
        by (subst extractVars_loop.simps) (simp add: go_slice_def)
    next
      case (Some e)
      have sl: "go_slice v start (length v) = Inr (drop start v)"
        "go_slice v (i + start) (length v) = Inr (drop (i + start) v)"
        using "1.prems" idx by (simp_all add: go_slice_def)
      note pr = scan_progress [OF sl(1) i sl(2) Some]
      obtain varName where vn: "go_index (strings_Split (take (e - 2) (drop (i + start + 2) v)) ''|'') 0 = Inr varName"
        using strings_Split_not_Nil [of _ "CHR ''|''" "[]"] by (auto simp: go_index_def)
      have content: "go_slice v (i + start + 2) (e + (i + start)) = Inr (take (e - 2) (drop (i + start + 2) v))"
        using pr by (simp add: go_slice_def)
      have "\<exists>vars. extractVars_loop v configMap (e + (i + start) + 2)
               (variables(varName \<mapsto> inputSchemaFor configMap varName)) = Inr vars"
        by (rule "1.IH" [OF sl(1) i refl sl(2) Some refl content refl vn]) (rule pr(2))
      then show ?thesis
        using i Some sl content vn
        by (subst extractVars_loop.simps) (simp add: Let_def)
    qed
  qed
qed


lemma extractVars_loop_step:
  assumes "start \<le> length v"
  shows "extractVars_loop v configMap start variables =
     (case strings_Index (drop start v) ''{{'' of
        None \<Rightarrow> Inr variables
      | Some i \<Rightarrow>
          (case strings_Index (drop (i + start) v) ''}}'' of
             None \<Rightarrow> Inr variables
           | Some e \<Rightarrow>
               (let varName = hd (strings_Split (take (e - 2) (drop (i + start + 2) v)) ''|'')
                in extractVars_loop v configMap (e + (i + start) + 2)
                     (variables(varName \<mapsto> inputSchemaFor configMap varName)))))"
proof (cases "strings_Index (drop start v) ''{{''")
  case None
  with assms show ?thesis
    by (subst extractVars_loop.simps) (simp add: go_slice_def)
next
  case (Some i)
  note i = this
  with strings_Index_bound [OF this] assms have idx: "i + start \<le> length v"
    by simp
  show ?thesis
  proof (cases "strings_Index (drop (i + start) v) ''}}''")
    case None
    with i idx assms show ?thesis
      by (subst extractVars_loop.simps) (simp add: go_slice_def)
  next
    case (Some e)
    have sl: "go_slice v start (length v) = Inr (drop start v)"
      "go_slice v (i + start) (length v) = Inr (drop (i + start) v)"
      using assms idx by (simp_all add: go_slice_def)
    note pr = scan_progress [OF sl(1) i sl(2) Some]
    have content: "go_slice v (i + start + 2) (e + (i + start)) =
        Inr (take (e - 2) (drop (i + start + 2) v))"
      using pr by (simp add: go_slice_def)
    have vn: "go_index (strings_Split s ''|'') 0 = Inr (hd (strings_Split s ''|''))" for s
      using strings_Split_not_Nil [of s "CHR ''|''" "[]"]
      by (simp add: go_index_def hd_conv_nth)
    show ?thesis
      using i Some sl content vn
      by (subst extractVars_loop.simps) (simp add: Let_def)
  qed
qed

lemma strings_ReplaceAll_absent:
  "strings_Index s (a # as) = None \<Longrightarrow> strings_ReplaceAll s (a # as) new = s"
  by (induction s) (auto split: if_splits)

lemma extractVars_returns: "\<exists>vars. extractVars v configMap = Inr vars"
  by (simp add: extractVars_def extractVars_loop_returns)

lemma truncateDescription_eq:
  "truncateDescription d = Inr (if length d > 100 then take 97 d @ ''...'' else d)"
  by (simp add: truncateDescription_def go_slice_def and_then_def)


lemma collect_returns:
  assumes "\<And>x. \<exists>y. f x = Inr y"
  shows "\<exists>ys. collect f xs = Inr ys \<and> length ys = length xs"
proof (induction xs)
  case Nil
  show ?case by simp
next
  case (Cons x xs)
  from assms obtain y where "f x = Inr y" by blast
  with Cons show ?case by auto
qed

lemma envKeyValue_returns: "\<exists>kv. envKeyValue configMap env = Inr kv"
  using extractVars_returns [of "EnvVar.Value env" configMap]
  by (auto simp: envKeyValue_def and_then_def Let_def)

lemma runtimeArgument_returns: "\<exists>arg. runtimeArgument configMap flag v = Inr arg"
  using extractVars_returns [of v configMap]
  by (auto simp: runtimeArgument_def and_then_def Let_def)

lemma commandArgument_returns: "\<exists>arg. commandArgument configMap cmd = Inr arg"
proof -
  obtain p ps where parts: "strings_SplitN cmd ''='' 2 = p # ps"
    using genSplit_not_Nil [of cmd "CHR ''=''" "[]" 1]
    by (cases "strings_SplitN cmd ''='' 2") (simp_all add: strings_SplitN_def)
  show ?thesis
  proof (cases ps)
    case Nil
    with parts show ?thesis
      by (simp add: commandArgument_def and_then_def go_index_def Let_def)
  next
    case (Cons q qs)
    with parts extractVars_returns [of q configMap] show ?thesis
      by (auto simp: commandArgument_def and_then_def go_index_def Let_def)
  qed
qed

lemma guarded_collect: "(if xs \<noteq> [] then collect f xs else Inr []) = collect f xs"
  by (cases xs) simp_all

lemma entryPackage_returns:
  "\<exists>pkg envs. entryPackage configMap entry = Inr pkg \<and>
     length envs = length (DockerCatalogEntry.Env entry) \<and>
     EnvironmentVariables pkg = envs @ map secretKeyValue (Secrets entry)"
proof -
  obtain envs where envs: "collect (envKeyValue configMap) (DockerCatalogEntry.Env entry) = Inr envs"
    "length envs = length (DockerCatalogEntry.Env entry)"
    using collect_returns [of "envKeyValue configMap", OF envKeyValue_returns] by blast
  obtain args where args: "collect (commandArgument configMap) (Command entry) = Inr args"
    using collect_returns [of "commandArgument configMap", OF commandArgument_returns] by blast
  obtain vols where vols: "collect (runtimeArgument configMap ''-v'') (Volumes entry) = Inr vols"
    using collect_returns [of "runtimeArgument configMap ''-v''", OF runtimeArgument_returns]
    by blast
  obtain user where user: "runtimeArgument configMap ''-u'' (User entry) = Inr user"
    using runtimeArgument_returns by blast
  have "\<exists>pkg. entryPackage configMap entry = Inr pkg \<and>
     EnvironmentVariables pkg = envs @ map secretKeyValue (Secrets entry)"
    using envs args vols user
    by (simp add: entryPackage_def guarded_collect and_then_def Let_def zero_Package_def)
  with envs(2) show ?thesis by blast
qed

lemma transformEntry_remote:
  assumes "DockerCatalogEntry.Type entry = ''remote''" and "Remote entry = Some remote"
  shows "\<exists>server. transformEntry order name entry = Inr server \<and>
     Packages server = [] \<and> Remotes server = [remoteTransport (HeadersOrder order) remote]"
  using assms
  by (simp add: transformEntry_def truncateDescription_eq and_then_def Let_def
      zero_RegistryServer_def)

lemma transformEntry_package:
  assumes "DockerCatalogEntry.Type entry \<noteq> ''remote'' \<or> Remote entry = None"
  shows "\<exists>server pkg. transformEntry order name entry = Inr server \<and>
     entryPackage (buildConfigMap (PropertiesOrder order) (Config entry)) entry = Inr pkg \<and>
     Packages server = [pkg] \<and> Remotes server = []"
proof -
  obtain pkg where
    "entryPackage (buildConfigMap (PropertiesOrder order) (Config entry)) entry = Inr pkg"
    using entryPackage_returns by blast
  moreover have "(if DockerCatalogEntry.Type entry = ''remote'' then Remote entry else None) = None"
    using assms by auto
  ultimately show ?thesis
    by (simp add: transformEntry_def truncateDescription_eq and_then_def Let_def
        zero_RegistryServer_def split: option.splits)
qed

lemma transformEntry_description:
  "\<exists>server. transformEntry order name entry = Inr server \<and>
     RegistryServer.Description server =
       (if length (DockerCatalogEntry.Description entry) > 100
        then take 97 (DockerCatalogEntry.Description entry) @ ''...''
        else DockerCatalogEntry.Description entry)"
proof (cases "DockerCatalogEntry.Type entry = ''remote'' \<and> Remote entry \<noteq> None")
  case True
  then show ?thesis
    by (auto simp add: transformEntry_def truncateDescription_eq and_then_def Let_def
      zero_RegistryServer_def)
next
  case False
  then have none: "(if DockerCatalogEntry.Type entry = ''remote'' then Remote entry else None) = None"
    by auto
  obtain pkg where
    "entryPackage (buildConfigMap (PropertiesOrder order) (Config entry)) entry = Inr pkg"
    using entryPackage_returns by blast
  with none show ?thesis
    by (simp add: transformEntry_def truncateDescription_eq and_then_def Let_def
        zero_RegistryServer_def split: option.splits)
qed

lemma transformEntry_returns: "\<exists>server. transformEntry order name entry = Inr server"
  using transformEntry_description by blast

subsection \<open>The batch\<close>

lemma go_range_member:
  "(k, v) \<in> set (go_range m order) \<longleftrightarrow> k \<in> set order \<and> m k = Some v"
  by (induction order) (auto simp: go_range_def List.map_filter_simps split: option.splits)

lemma go_range_complete:
  "range_order m order \<Longrightarrow> (k, v) \<in> set (go_range m order) \<longleftrightarrow> m k = Some v"
  by (auto simp: go_range_member range_order_def)

lemma transformEntry_name:
  "transformEntry order name entry = Inr server \<Longrightarrow>
     RegistryServer.Name server = ''com.docker.mcp/'' @ name"
  by (auto simp: transformEntry_def truncateDescription_eq and_then_def Let_def
      zero_RegistryServer_def split: option.splits sum.splits if_splits)

lemma main_loop_eq:
  "\<exists>out. main_loop orders nes servers = Inr (servers @ out) \<and>
     map Inr out = map (\<lambda>ne. transformEntry (orders (fst ne)) (fst ne) (snd ne))
       (filter (\<lambda>ne. DockerCatalogEntry.Type (snd ne) \<noteq> ''remote'') nes)"
proof (induction nes arbitrary: servers)
  case Nil
  show ?case by simp
next
  case (Cons ne nes)
  show ?case
  proof (cases "DockerCatalogEntry.Type (snd ne) = ''remote''")
    case True
    with Cons [of servers] show ?thesis by simp
  next
    case False
    obtain server where server: "transformEntry (orders (fst ne)) (fst ne) (snd ne) = Inr server"
      using transformEntry_returns by blast
    from Cons [of "servers @ [server]"] obtain out where
      "main_loop orders nes (servers @ [server]) = Inr (servers @ server # out)"
      "map Inr out = map (\<lambda>ne. transformEntry (orders (fst ne)) (fst ne) (snd ne))
         (filter (\<lambda>ne. DockerCatalogEntry.Type (snd ne) \<noteq> ''remote'') nes)"
      by auto
    with False server show ?thesis
      by (intro exI [of _ "server # out"]) simp
  qed
qed

subsection \<open>The order of the \<open>range\<close> loops\<close>

lemma go_range_snoc:
  "go_range m (ks @ [k]) = go_range m ks @ (case m k of None \<Rightarrow> [] | Some v \<Rightarrow> [(k, v)])"
  by (induction ks) (auto simp: go_range_def split: option.splits)

lemma fold_addProperty:
  "fold (addProperty cfg) (go_range props ks) result k =
     (case (if \<exists>key \<in> set ks. k = Config.Name cfg @ ''.'' @ key
            then props (drop (length (Config.Name cfg) + 1) k) else None) of
        Some (JObject propMap) \<Rightarrow> Some propMap
      | _ \<Rightarrow> result k)"
proof (induction ks rule: rev_induct)
  case Nil
  show ?case by (simp add: go_range_def)
next
  case (snoc key ks)
  show ?case
  proof (cases "props key")
    case None
    with snoc show ?thesis
      by (auto simp: go_range_snoc split: option.splits json.splits)
  next
    case (Some v)
    with snoc show ?thesis
      by (cases v) (auto simp: go_range_snoc addProperty_def split: option.splits json.splits)
  qed
qed

lemma fold_addProperty_order:
  assumes "set ks = set ks'"
  shows "fold (addProperty cfg) (go_range props ks) result =
         fold (addProperty cfg) (go_range props ks') result"
  by (rule ext) (simp add: fold_addProperty assms)

lemma buildConfigMap_from_order:
  assumes "\<And>j. j < length configs \<Longrightarrow> set (order (i + j)) = set (order' (i + j))"
  shows "buildConfigMap_from order i configs result = buildConfigMap_from order' i configs result"
  using assms
proof (induction configs arbitrary: i result)
  case Nil
  show ?case by simp
next
  case (Cons cfg configs)
  have "set (order i) = set (order' i)"
    using Cons.prems [of 0] by simp
  moreover have "set (order (Suc i + j)) = set (order' (Suc i + j))" if "j < length configs" for j
    using Cons.prems [of "Suc j"] that by simp
  ultimately show ?case
    using Cons.IH [of "Suc i"] by (simp add: fold_addProperty_order [of "order i" "order' i"])
qed

lemma buildConfigMap_order:
  assumes "valid_orders entry order" and "valid_orders entry order'"
  shows "buildConfigMap (PropertiesOrder order) (Config entry) =
         buildConfigMap (PropertiesOrder order') (Config entry)"
  unfolding buildConfigMap_def
  by (rule buildConfigMap_from_order)
     (use assms in \<open>simp add: valid_orders_def range_order_def\<close>)

lemma range_order_small:
  assumes "range_order m ks" and "range_order m ks'" and "dom m \<subseteq> {k}"
  shows "ks = ks'"
proof -
  have one: "xs = (if set xs = {} then [] else [k])" if "distinct xs" "set xs \<subseteq> {k}" for xs :: "'a list"
    using that
  proof (cases xs)
    case Nil
    then show ?thesis by simp
  next
    case (Cons x ys)
    with that have "x = k" "set ys \<subseteq> {k}" "x \<notin> set ys" by auto
    then have "ys = []" by (cases ys) auto
    with Cons \<open>x = k\<close> show ?thesis by simp
  qed
  from assms have "distinct ks" "set ks \<subseteq> {k}" "distinct ks'" "set ks' \<subseteq> {k}" "set ks = set ks'"
    by (auto simp: range_order_def)
  with one [of ks] one [of ks'] show ?thesis by metis
qed

lemma transformEntry_order:
  assumes "valid_orders entry order" and "valid_orders entry order'"
    and "DockerCatalogEntry.Type entry \<noteq> ''remote'' \<or>
         (\<forall>remote. Remote entry = Some remote \<longrightarrow> (\<exists>k. dom (Remote.Headers remote) \<subseteq> {k}))"
  shows "transformEntry order name entry = transformEntry order' name entry"
proof (cases "DockerCatalogEntry.Type entry = ''remote'' \<and> Remote entry \<noteq> None")
  case True
  then obtain remote where remote: "Remote entry = Some remote" by auto
  with True assms(3) obtain k where "dom (Remote.Headers remote) \<subseteq> {k}" by auto
  moreover from assms(1,2) remote have "range_order (Remote.Headers remote) (HeadersOrder order)"
    "range_order (Remote.Headers remote) (HeadersOrder order')"
    by (simp_all add: valid_orders_def)
  ultimately have "HeadersOrder order = HeadersOrder order'"
    by (rule range_order_small [rotated 2])
  with True remote show ?thesis
    by (simp add: transformEntry_def Let_def)
next
  case False
  then have "(if DockerCatalogEntry.Type entry = ''remote'' then Remote entry else None) = None"
    by auto
  then show ?thesis
    by (simp add: transformEntry_def Let_def buildConfigMap_order [OF assms(1,2)])
qed


lemma main_loop_order:
  assumes "\<And>ne. ne \<in> set nes \<Longrightarrow> DockerCatalogEntry.Type (snd ne) \<noteq> ''remote'' \<Longrightarrow>
     transformEntry (orders (fst ne)) (fst ne) (snd ne) =
     transformEntry (orders' (fst ne)) (fst ne) (snd ne)"
  shows "main_loop orders nes servers = main_loop orders' nes servers"
  using assms
proof (induction nes arbitrary: servers)
  case Nil
  show ?case by simp
next
  case (Cons ne nes)
  have "transformEntry (orders (fst ne)) (fst ne) (snd ne) =
     transformEntry (orders' (fst ne)) (fst ne) (snd ne)"
    if "DockerCatalogEntry.Type (snd ne) \<noteq> ''remote''"
    using Cons.prems [of ne] that by simp
  moreover have "main_loop orders nes servers' = main_loop orders' nes servers'" for servers'
    using Cons.IH Cons.prems by simp
  ultimately show ?case
    by (simp split: sum.splits)
qed

subsection \<open>Unterminated placeholders and skipped properties\<close>

lemma sublist_pair_append:
  "sublist [a, b] (xs @ ys) \<longleftrightarrow>
     sublist [a, b] xs \<or> sublist [a, b] ys \<or> (xs \<noteq> [] \<and> last xs = a \<and> ys \<noteq> [] \<and> hd ys = b)"
proof (induction xs)
  case Nil
  show ?case by simp
next
  case (Cons x xs)
  show ?case
  proof (cases xs)
    case Nil
    then show ?thesis
      by (cases ys) (auto simp: sublist_Cons_right)
  next
    case (Cons x' xs')
    with Cons.IH show ?thesis
      by (simp add: sublist_Cons_right)
  qed
qed

lemma prefix_append_short:
  assumes "prefix sub (xs @ ys)" and "length sub \<le> length xs"
  shows "prefix sub xs"
proof -
  from assms(1) obtain zs where "xs @ ys = sub @ zs"
    by (auto simp: prefix_def)
  with assms(2) have "sub = take (length sub) xs"
    by (metis append_eq_conv_conj take_append diff_is_0_eq take_0 append_Nil2)
  then show ?thesis
    by (metis take_is_prefix)
qed

lemma strings_Index_append:
  assumes "strings_Index xs sub = Some i"
  shows "strings_Index (xs @ ys) sub = Some i"
  using assms
proof (induction xs arbitrary: i)
  case Nil
  then show ?case by (cases ys) (auto split: if_splits)
next
  case (Cons c cs)
  show ?case
  proof (cases "prefix sub (c # cs)")
    case True
    then have "prefix sub ((c # cs) @ ys)"
      by (rule prefix_prefix)
    with True Cons.prems show ?thesis by simp
  next
    case False
    with Cons.prems obtain j where j: "strings_Index cs sub = Some j" "i = Suc j"
      by auto
    from strings_Index_bound [OF j(1)] have "length sub \<le> length (c # cs)" by simp
    with False have "\<not> prefix sub ((c # cs) @ ys)"
      using prefix_append_short by blast
    with Cons.IH [OF j(1)] j(2) show ?thesis by simp
  qed
qed


lemma no_closing_after_opening:
  assumes "\<not> sublist ''}}'' ys" and "\<not> sublist ''}}'' rest"
  shows "\<not> sublist ''}}'' (ys @ ''{{'' @ rest)"
  using assms by (simp add: sublist_pair_append sublist_Cons_right)

lemma no_closing_from_last_opening:
  assumes "\<not> sublist ''{{'' xs" and "strings_Index (xs @ ''{{'' @ rest) ''{{'' = Some i"
    and "\<not> sublist ''}}'' rest"
  shows "\<not> sublist ''}}'' (drop i (xs @ ''{{'' @ rest))"
proof -
  have "i \<le> length xs"
  proof (rule ccontr)
    assume "\<not> i \<le> length xs"
    then have "\<not> prefix ''{{'' (drop (length xs) (xs @ ''{{'' @ rest))"
      using strings_Index_first [OF assms(2), of "length xs"] by simp
    then show False by simp
  qed
  then have split: "drop i (xs @ ''{{'' @ rest) = drop i xs @ ''{{'' @ rest"
    by simp
  have starts: "prefix ''{{'' (drop i xs @ ''{{'' @ rest)"
    using strings_Index_prefix [OF assms(2)] split by simp
  have none: "\<not> sublist ''{{'' (drop i xs)"
    using assms(1) sublist_drop [of i xs] sublist_order.order.trans by blast
  show ?thesis
  proof (cases "drop i xs")
    case Nil
    with assms(3) show ?thesis
      unfolding split by (simp add: sublist_Cons_right)
  next
    case (Cons c ys)
    show ?thesis
    proof (cases ys)
      case Nil
      with Cons starts have "c = CHR ''{''" by simp
      with Nil Cons assms(3) show ?thesis
        unfolding split by (simp add: sublist_Cons_right)
    next
      case (Cons d zs)
      with \<open>drop i xs = c # ys\<close> starts have "prefix ''{{'' (drop i xs)" by auto
      with none show ?thesis by auto
    qed
  qed
qed

lemma extractVars_loop_unterminated:
  assumes "\<not> sublist ''}}'' rest"
  shows "start \<le> length pre \<Longrightarrow>
     extractVars_loop (pre @ ''{{'' @ rest) configMap start variables =
     extractVars_loop pre configMap start variables"
proof (induction "length pre - start" arbitrary: start variables rule: less_induct)
  case less
  let ?v = "pre @ ''{{'' @ rest"
  from less.prems have start: "start \<le> length ?v" by simp
  have tail: "drop start ?v = drop start pre @ ''{{'' @ rest"
    using less.prems by simp
  show ?case
  proof (cases "strings_Index (drop start pre) ''{{''")
    case None
    then have "\<not> sublist ''{{'' (drop start pre)"
      by (simp add: strings_Index_None)
    moreover have "sublist ''{{'' (drop start ?v)"
      unfolding tail by (rule sublist_appendI)
    then obtain i where i: "strings_Index (drop start ?v) ''{{'' = Some i"
      using strings_Index_None [of "drop start ?v" "''{{''"] by auto
    ultimately have "\<not> sublist ''}}'' (drop i (drop start ?v))"
      unfolding tail using assms by (intro no_closing_from_last_opening)
    then have "\<not> sublist ''}}'' (drop (i + start) ?v)"
      unfolding drop_drop .
    then have closing: "strings_Index (drop (i + start) ?v) ''}}'' = None"
      using strings_Index_None by blast
    show ?thesis
      by (simp only: extractVars_loop_step [OF start] extractVars_loop_step [OF less.prems]
          None i closing option.case)
  next
    case (Some i)
    then have i: "strings_Index (drop start ?v) ''{{'' = Some i"
      unfolding tail by (rule strings_Index_append)
    from strings_Index_bound [OF Some] less.prems have idx: "i + start + 2 \<le> length pre"
      by simp
    then have tail': "drop (i + start) ?v = drop (i + start) pre @ ''{{'' @ rest"
      by simp
    show ?thesis
    proof (cases "strings_Index (drop (i + start) pre) ''}}''")
      case None
      then have "\<not> sublist ''}}'' (drop (i + start) pre)"
        using strings_Index_None by blast
      then have "\<not> sublist ''}}'' (drop (i + start) ?v)"
        unfolding tail' using assms by (intro no_closing_after_opening)
      then have closing: "strings_Index (drop (i + start) ?v) ''}}'' = None"
        using strings_Index_None by blast
      show ?thesis
        by (simp only: extractVars_loop_step [OF start] extractVars_loop_step [OF less.prems]
            None Some i closing option.case)
    next
      case (Some e)
      then have e: "strings_Index (drop (i + start) ?v) ''}}'' = Some e"
        unfolding tail' by (rule strings_Index_append)
      from strings_Index_bound [OF Some] idx have next_start: "e + (i + start) + 2 \<le> length pre"
        by simp
      then have content: "take (e - 2) (drop (i + start + 2) ?v) =
          take (e - 2) (drop (i + start + 2) pre)"
        by simp
      have "extractVars_loop ?v configMap (e + (i + start) + 2) variables' =
          extractVars_loop pre configMap (e + (i + start) + 2) variables'" for variables'
        using next_start less.prems by (intro less.hyps) simp_all
      note again = this
      show ?thesis
        by (simp only: extractVars_loop_step [OF start] extractVars_loop_step [OF less.prems]
            Some e i \<open>strings_Index (drop start pre) ''{{'' = Some i\<close> content again
            option.case Let_def)
    qed
  qed
qed


lemma fold_addProperty_source:
  assumes "fold (addProperty cfg) (go_range props ks) result fullKey = Some propMap"
  shows "result fullKey = Some propMap \<or>
     (\<exists>key. fullKey = Config.Name cfg @ ''.'' @ key \<and> props key = Some (JObject propMap))"
  using assms unfolding fold_addProperty
  by (auto split: if_splits option.splits json.splits)

lemma buildConfigMap_from_source:
  assumes "buildConfigMap_from order i configs result fullKey = Some propMap"
  shows "result fullKey = Some propMap \<or>
     (\<exists>cfg \<in> set configs. \<exists>key. fullKey = Config.Name cfg @ ''.'' @ key \<and>
        Properties cfg key = Some (JObject propMap))"
  using assms
proof (induction configs arbitrary: i result)
  case Nil
  then show ?case by simp
next
  case (Cons cfg configs)
  from Cons.prems have "buildConfigMap_from order (Suc i) configs
      (fold (addProperty cfg) (go_range (Properties cfg) (order i)) result) fullKey = Some propMap"
    by simp
  from Cons.IH [OF this] fold_addProperty_source [of cfg "Properties cfg" "order i" result fullKey propMap]
  show ?case by auto
qed

lemma addProperty_skips:
  assumes "\<forall>propMap. val \<noteq> JObject propMap"
  shows "addProperty cfg (key, val) result = result"
  using assms by (cases val) (simp_all add: addProperty_def)

lemma main_servers_returns: "\<exists>servers. main_servers orders registryOrder registry = Inr servers"
  using main_loop_eq [of orders "go_range registry registryOrder" "[]"]
  by (auto simp: main_servers_def)

subsection \<open>Replacing braces\<close>

lemma strings_ReplaceAll_append:
  assumes "xs = [] \<or> last xs \<noteq> a \<or> ys = [] \<or> hd ys \<noteq> a"
  shows "strings_ReplaceAll (xs @ ys) [a, a] new =
         strings_ReplaceAll xs [a, a] new @ strings_ReplaceAll ys [a, a] new"
  using assms
proof (induction xs rule: induct_list012)
  case 1
  show ?case by simp
next
  case (2 x)
  then show ?case by (cases ys) auto
next
  case (3 x y zs)
  show ?case
  proof (cases "x = a \<and> y = a")
    case True
    from 3(3) have "zs = [] \<or> last zs \<noteq> a \<or> ys = [] \<or> hd ys \<noteq> a"
      by (auto split: if_splits)
    from 3(1) [OF this] True show ?thesis by simp
  next
    case False
    from 3(3) have "y # zs = [] \<or> last (y # zs) \<noteq> a \<or> ys = [] \<or> hd ys \<noteq> a"
      by (auto split: if_splits)
    from 3(2) [OF this] False show ?thesis by auto
  qed
qed

lemma strings_ReplaceAll_no_match:
  "\<not> sublist (a # as) s \<Longrightarrow> strings_ReplaceAll s (a # as) new = s"
  by (rule strings_ReplaceAll_absent) (simp add: strings_Index_None)

lemma strings_ReplaceAll_free:
  assumes "a \<notin> set xs"
  shows "strings_ReplaceAll (xs @ ys) [a, a] new = xs @ strings_ReplaceAll ys [a, a] new"
proof -
  have "xs = [] \<or> last xs \<noteq> a"
    using assms last_in_set by fastforce
  moreover have "\<not> sublist [a, a] xs"
    using assms by (auto simp: sublist_def)
  ultimately show ?thesis
    using strings_ReplaceAll_append [of xs a ys new] strings_ReplaceAll_no_match [of a "[a]" xs new]
    by auto
qed

lemma strings_ReplaceAll_unmatched:
  assumes "\<not> sublist [a, a] (xs @ [a])"
  shows "strings_ReplaceAll (xs @ ys) [a, a] new = xs @ strings_ReplaceAll ys [a, a] new"
proof -
  from assms have "\<not> sublist [a, a] xs" "xs = [] \<or> last xs \<noteq> a"
    by (auto simp: sublist_pair_append)
  then show ?thesis
    using strings_ReplaceAll_append [of xs a ys new] strings_ReplaceAll_no_match [of a "[a]" xs new]
    by auto
qed

lemma convertBraces_placeholder:
  assumes "CHR ''{'' \<notin> set body" and "CHR ''}'' \<notin> set body"
    and "pre = [] \<or> last pre \<noteq> CHR ''{''"
  shows "convertBraces (pre @ ''{{'' @ body @ ''}}'' @ rest) =
         convertBraces pre @ ''{'' @ body @ ''}'' @ convertBraces rest"
proof -
  let ?R1 = "\<lambda>s. strings_ReplaceAll s ''{{'' ''{''"
  let ?R2 = "\<lambda>s. strings_ReplaceAll s ''}}'' ''}''"
  have "?R1 (pre @ ''{{'' @ body @ ''}}'' @ rest) = ?R1 pre @ ?R1 (''{{'' @ body @ ''}}'' @ rest)"
    using assms(3) by (intro strings_ReplaceAll_append) auto
  also have "?R1 (''{{'' @ body @ ''}}'' @ rest) = ''{'' @ ?R1 (body @ ''}}'' @ rest)"
    by simp
  also have "?R1 (body @ ''}}'' @ rest) = body @ ?R1 (''}}'' @ rest)"
    using assms(1) by (rule strings_ReplaceAll_free)
  also have "?R1 (''}}'' @ rest) = ''}}'' @ ?R1 rest"
    by simp
  finally have first: "?R1 (pre @ ''{{'' @ body @ ''}}'' @ rest) =
      (?R1 pre @ ''{'') @ body @ ''}}'' @ ?R1 rest"
    by simp
  have "?R2 ((?R1 pre @ ''{'') @ body @ ''}}'' @ ?R1 rest) =
      ?R2 (?R1 pre @ ''{'') @ ?R2 (body @ ''}}'' @ ?R1 rest)"
    by (intro strings_ReplaceAll_append) simp
  also have "?R2 (?R1 pre @ ''{'') = ?R2 (?R1 pre) @ ?R2 ''{''"
    by (intro strings_ReplaceAll_append) simp
  also have "?R2 (body @ ''}}'' @ ?R1 rest) = body @ ?R2 (''}}'' @ ?R1 rest)"
    using assms(2) by (rule strings_ReplaceAll_free)
  also have "?R2 (''}}'' @ ?R1 rest) = ''}'' @ ?R2 (?R1 rest)"
    by simp
  finally have "?R2 (?R1 (pre @ ''{{'' @ body @ ''}}'' @ rest)) =
      (?R2 (?R1 pre) @ ?R2 ''{'') @ body @ ''}'' @ ?R2 (?R1 rest)"
    unfolding first .
  then show ?thesis
    unfolding convertBraces_def Let_def by simp
qed

subsection \<open>The placeholders that the scan finds\<close>

lemma strings_Index_char:
  "strings_Index s [c] = (if c \<in> set s then Some (length (takeWhile (\<lambda>x. x \<noteq> c) s)) else None)"
  by (induction s) auto

lemma first_part_of_Split:
  "hd (strings_Split s ''|'') = takeWhile (\<lambda>c. c \<noteq> CHR ''|'') s"
proof (cases s)
  case Nil
  then show ?thesis by (simp add: strings_Split_def)
next
  case (Cons c cs)
  have "hd (genSplit s ''|'' (Suc (length cs))) =
      (case strings_Index s ''|'' of None \<Rightarrow> s | Some m \<Rightarrow> take m s)"
    by (simp split: option.splits)
  also have "\<dots> = takeWhile (\<lambda>c. c \<noteq> CHR ''|'') s"
  proof (cases "CHR ''|'' \<in> set s")
    case True
    then show ?thesis
      unfolding strings_Index_char using takeWhile_eq_take [of "\<lambda>c. c \<noteq> CHR ''|''" s] by simp
  next
    case False
    then have all: "takeWhile (\<lambda>c. c \<noteq> CHR ''|'') s = s"
      by (auto simp: takeWhile_eq_all_conv)
    from False show ?thesis
      unfolding strings_Index_char all by simp
  qed
  finally show ?thesis
    using Cons by (simp add: strings_Split_def del: genSplit.simps)
qed

lemma strings_Index_first_sublist:
  assumes "strings_Index s sub = Some m" and "sub \<noteq> []"
  shows "\<not> sublist sub (take (m + length sub - 1) s)"
  using assms
proof (induction s arbitrary: m)
  case Nil
  then show ?case by (simp split: if_splits)
next
  case (Cons c cs)
  show ?case
  proof (cases "prefix sub (c # cs)")
    case True
    with Cons.prems have "m = 0" by simp
    have "length (take (m + length sub - 1) (c # cs)) < length sub"
      using \<open>m = 0\<close> Cons.prems(2) by (cases sub) auto
    then show ?thesis
      using sublist_length_le by fastforce
  next
    case False
    with Cons.prems obtain m' where m': "strings_Index cs sub = Some m'" "m = Suc m'"
      by auto
    have take: "take (m + length sub - 1) (c # cs) = c # take (m' + length sub - 1) cs"
      using m'(2) Cons.prems(2) by (cases sub) auto
    have "\<not> prefix sub (c # take (m' + length sub - 1) cs)"
    proof
      assume "prefix sub (c # take (m' + length sub - 1) cs)"
      moreover have "prefix (c # take (m' + length sub - 1) cs) (c # cs)"
        by (simp add: take_is_prefix)
      ultimately have "prefix sub (c # cs)"
        by (rule prefix_order.trans)
      with False show False ..
    qed
    with Cons.IH [OF m'(1) Cons.prems(2)] show ?thesis
      unfolding take by (simp add: sublist_Cons_right)
  qed
qed


lemma canonical_token:
  assumes v: "v = pre @ ''{{'' @ content @ ''}}'' @ rest"
    and pre: "pre = [] \<or> last pre \<noteq> CHR ''{''"
    and first: "\<not> sublist ''}}'' (content @ ''}'')"
    and name: "name = takeWhile (\<lambda>c. c \<noteq> CHR ''|'') content"
    and plain: "\<not> sublist ''{{'' name"
  shows "sublist (''{'' @ name @ ''}'') (convertBraces v) \<or>
     (CHR ''|'' \<in> set v \<and> sublist (''{'' @ name @ ''|'') (convertBraces v))"
proof -
  let ?R1 = "\<lambda>s. strings_ReplaceAll s ''{{'' ''{''"
  let ?R2 = "\<lambda>s. strings_ReplaceAll s ''}}'' ''}''"
  define tail where "tail = dropWhile (\<lambda>c. c \<noteq> CHR ''|'') content"
  have content: "content = name @ tail"
    by (simp add: name tail_def)
  have tail: "tail = [] \<or> hd tail = CHR ''|''"
    using hd_dropWhile [of "\<lambda>c. c \<noteq> CHR ''|''" content] by (auto simp: tail_def)
  have closed: "\<not> sublist ''}}'' name"
  proof
    assume "sublist ''}}'' name"
    then have "sublist ''}}'' ((name @ tail) @ ''}'')"
      by (auto simp: sublist_append)
    with first content show False by simp
  qed
  have "?R1 v = ?R1 pre @ ?R1 (''{{'' @ content @ ''}}'' @ rest)"
    unfolding v using pre by (intro strings_ReplaceAll_append) auto
  also have "?R1 (''{{'' @ content @ ''}}'' @ rest) = ''{'' @ ?R1 (name @ tail @ ''}}'' @ rest)"
    by (simp add: content)
  also have "?R1 (name @ tail @ ''}}'' @ rest) = ?R1 name @ ?R1 (tail @ ''}}'' @ rest)"
    using tail by (intro strings_ReplaceAll_append) (cases tail; auto)
  also have "?R1 name = name"
    using plain by (rule strings_ReplaceAll_no_match)
  finally have R1: "?R1 v = (?R1 pre @ ''{'') @ name @ ?R1 (tail @ ''}}'' @ rest)"
    by simp
  have R2: "?R2 ((?R1 pre @ ''{'') @ name @ xs) = (?R2 (?R1 pre) @ ''{'') @ ?R2 (name @ xs)" for xs
  proof -
    have "?R2 ((?R1 pre @ ''{'') @ name @ xs) = ?R2 (?R1 pre @ ''{'') @ ?R2 (name @ xs)"
      by (intro strings_ReplaceAll_append) simp
    also have "?R2 (?R1 pre @ ''{'') = ?R2 (?R1 pre) @ ?R2 ''{''"
      by (intro strings_ReplaceAll_append) simp
    finally show ?thesis by simp
  qed
  show ?thesis
  proof (cases tail)
    case Nil
    with content first have "\<not> sublist ''}}'' (name @ ''}'')" by simp
    then have "?R2 (name @ ''}}'' @ ?R1 rest) = name @ ?R2 (''}}'' @ ?R1 rest)"
      by (rule strings_ReplaceAll_unmatched)
    moreover have "?R1 (tail @ ''}}'' @ rest) = ''}}'' @ ?R1 rest"
      using Nil by simp
    ultimately have "convertBraces v =
        ?R2 (?R1 pre) @ (''{'' @ name @ ''}'') @ ?R2 (?R1 rest)"
      unfolding convertBraces_def Let_def R1 R2 by simp
    then show ?thesis
      unfolding sublist_def by blast
  next
    case (Cons c cs)
    with tail have c: "c = CHR ''|''" by simp
    then have "CHR ''|'' \<in> set v"
      unfolding v content Cons by simp
    moreover have "?R1 (tail @ ''}}'' @ rest) = ''|'' @ ?R1 (cs @ ''}}'' @ rest)"
      using Cons c by simp
    moreover have "?R2 (name @ ''|'' @ xs) = name @ ''|'' @ ?R2 xs" for xs
    proof -
      have "?R2 (name @ ''|'' @ xs) = ?R2 name @ ?R2 (''|'' @ xs)"
        by (intro strings_ReplaceAll_append) simp
      also have "?R2 name = name"
        using closed by (rule strings_ReplaceAll_no_match)
      finally show ?thesis by simp
    qed
    ultimately have "CHR ''|'' \<in> set v \<and> convertBraces v =
        ?R2 (?R1 pre) @ (''{'' @ name @ ''|'') @ ?R2 (?R1 (cs @ ''}}'' @ rest))"
      unfolding convertBraces_def Let_def R1 R2 by simp
    then show ?thesis
      unfolding sublist_def by blast
  qed
qed


lemma placeholder_shape:
  assumes i: "strings_Index (drop start v) ''{{'' = Some i"
    and e: "strings_Index (drop (i + start) v) ''}}'' = Some e"
    and start: "start \<le> length v" "start = 0 \<or> v ! (start - 1) = CHR ''}''"
  shows "v = take (i + start) v @ ''{{'' @ take (e - 2) (drop (i + start + 2) v) @ ''}}'' @
           drop (e + (i + start) + 2) v"
    and "take (i + start) v = [] \<or> last (take (i + start) v) \<noteq> CHR ''{''"
    and "\<not> sublist ''}}'' (take (e - 2) (drop (i + start + 2) v) @ ''}'')"
    and "v ! (e + (i + start) + 1) = CHR ''}''"
proof -
  let ?idx = "i + start"
  let ?t = "drop ?idx v"
  let ?content = "take (e - 2) (drop (?idx + 2) v)"
  have idx: "?idx + 2 \<le> length v"
    using strings_Index_bound [OF i] start(1) by simp
  have opens: "prefix ''{{'' ?t"
    using strings_Index_prefix [OF i] by (simp add: add.commute)
  have closes: "prefix ''}}'' (drop e ?t)"
    using strings_Index_prefix [OF e] .
  have e2: "2 \<le> e"
    using opens e by (rule closing_after_opening)
  have bound: "e + 2 \<le> length ?t"
    using strings_Index_bound [OF e] by simp
  have t2: "take 2 ?t = ''{{''"
    using opens by (auto simp: prefix_def)
  have c2: "take 2 (drop e ?t) = ''}}''"
    using closes by (auto simp: prefix_def)
  have head: "take e ?t = ''{{'' @ ?content"
  proof -
    from e2 obtain k where k: "e = 2 + k"
      using le_Suc_ex by blast
    have "take (2 + k) ?t = take 2 ?t @ take k (drop 2 ?t)"
      by (rule take_add)
    moreover have "e - 2 = k" using k by simp
    ultimately show ?thesis
      unfolding k t2 by (simp add: add.commute)
  qed
  have "?t = take e ?t @ drop e ?t"
    by (rule append_take_drop_id [symmetric])
  also have "drop e ?t = take 2 (drop e ?t) @ drop 2 (drop e ?t)"
    by (rule append_take_drop_id [symmetric])
  finally have t: "?t = ''{{'' @ ?content @ ''}}'' @ drop (e + ?idx + 2) v"
    unfolding head c2 by (simp add: add.commute add.left_commute)
  have "v = take ?idx v @ ?t"
    by (rule append_take_drop_id [symmetric])
  with t show "v = take ?idx v @ ''{{'' @ ?content @ ''}}'' @ drop (e + ?idx + 2) v"
    by simp
  show "take ?idx v = [] \<or> last (take ?idx v) \<noteq> CHR ''{''"
  proof (cases "?idx = 0")
    case True
    then show ?thesis by simp
  next
    case False
    have before: "v ! (?idx - 1) \<noteq> CHR ''{''"
    proof (cases i)
      case 0
      with False start(2) show ?thesis by simp
    next
      case (Suc j)
      have "\<not> prefix ''{{'' (drop j (drop start v))"
        using strings_Index_first [OF i, of j] Suc by simp
      moreover have "drop j (drop start v) = v ! (?idx - 1) # ?t"
        using Suc idx by (simp add: Cons_nth_drop_Suc add.commute)
      ultimately show ?thesis
        using opens by (auto simp: prefix_def)
    qed
    have ne: "take ?idx v \<noteq> []"
      using False idx by auto
    have len: "length (take ?idx v) = ?idx"
      using idx by simp
    have "last (take ?idx v) = take ?idx v ! (?idx - 1)"
      using last_conv_nth [OF ne] unfolding len .
    also have "\<dots> = v ! (?idx - 1)"
      using False by (intro nth_take) simp
    finally have "last (take ?idx v) = v ! (?idx - 1)" .
    with before show ?thesis by simp
  qed
  show "\<not> sublist ''}}'' (?content @ ''}'')"
  proof
    assume inner: "sublist ''}}'' (?content @ ''}'')"
    have "take (e + 1) ?t = take e ?t @ take 1 (drop e ?t)"
      by (rule take_add)
    moreover have "take 1 (drop e ?t) = ''}''"
      using closes by (auto simp: prefix_def)
    ultimately have "take (e + 1) ?t = ''{{'' @ ?content @ ''}''"
      unfolding head by simp
    then have "sublist (?content @ ''}'') (take (e + 1) ?t)"
      by (metis sublist_append_leftI)
    with inner have "sublist ''}}'' (take (e + 1) ?t)"
      by (rule sublist_order.order.trans)
    then show False
      using strings_Index_first_sublist [OF e] by simp
  qed
  have "v ! (e + ?idx + 1) = ?t ! (e + 1)"
    using idx by (simp add: add.commute add.left_commute)
  also have "\<dots> = drop e ?t ! 1"
    using bound by (subst nth_drop) simp_all
  also have "\<dots> = CHR ''}''"
    using closes by (auto simp: prefix_def)
  finally show "v ! (e + ?idx + 1) = CHR ''}''" .
qed


lemma extractVars_loop_key:
  assumes "extractVars_loop v configMap start variables = Inr result"
    and "name \<in> dom result" and "name \<notin> dom variables"
    and "start \<le> length v" and "start = 0 \<or> v ! (start - 1) = CHR ''}''"
  shows "\<exists>pre content rest. v = pre @ ''{{'' @ content @ ''}}'' @ rest \<and>
     (pre = [] \<or> last pre \<noteq> CHR ''{'') \<and> \<not> sublist ''}}'' (content @ ''}'') \<and>
     name = takeWhile (\<lambda>c. c \<noteq> CHR ''|'') content"
  using assms
proof (induction "length v - start" arbitrary: start variables rule: less_induct)
  case less
  note step = extractVars_loop_step [OF less.prems(4), of configMap variables]
  show ?case
  proof (cases "strings_Index (drop start v) ''{{''")
    case None
    with less.prems(1-3) step show ?thesis by auto
  next
    case (Some i)
    note i = this
    show ?thesis
    proof (cases "strings_Index (drop (i + start) v) ''}}''")
      case None
      with i less.prems(1-3) step show ?thesis by auto
    next
      case (Some e)
      let ?content = "take (e - 2) (drop (i + start + 2) v)"
      let ?varName = "takeWhile (\<lambda>c. c \<noteq> CHR ''|'') ?content"
      note shape = placeholder_shape [OF i Some less.prems(4,5)]
      from step i Some less.prems(1)
      have again: "extractVars_loop v configMap (e + (i + start) + 2)
          (variables(?varName \<mapsto> inputSchemaFor configMap ?varName)) = Inr result"
        by (simp add: Let_def first_part_of_Split)
      show ?thesis
      proof (cases "name = ?varName")
        case True
        with shape(1-3) show ?thesis by blast
      next
        case False
        have bound: "e + (i + start) + 2 \<le> length v"
          using strings_Index_bound [OF Some] strings_Index_bound [OF i] less.prems(4) by simp
        have "name \<notin> dom (variables(?varName \<mapsto> inputSchemaFor configMap ?varName))"
          using False less.prems(3) by simp
        moreover have "e + (i + start) + 2 = 0 \<or> v ! (e + (i + start) + 2 - 1) = CHR ''}''"
          using shape(4) by simp
        moreover have "length v - (e + (i + start) + 2) < length v - start"
          using bound by simp
        ultimately show ?thesis
          using less.hyps [OF _ again less.prems(2) _ bound] by blast
      qed
    qed
  qed
qed

text \<open>What lines 212 to 215 do, in bytes.\<close>

lemma description_truncated_bytes:
  "\<exists>server. transformEntry order name entry = Inr server \<and>
     (length (DockerCatalogEntry.Description entry) \<le> 100 \<longrightarrow>
        RegistryServer.Description server = DockerCatalogEntry.Description entry) \<and>
     (length (DockerCatalogEntry.Description entry) > 100 \<longrightarrow>
        length (RegistryServer.Description server) = 100 \<and>
        RegistryServer.Description server =
          take 97 (DockerCatalogEntry.Description entry) @ ''...'' \<and>
        suffix ''...'' (RegistryServer.Description server))"
proof -
  obtain server where "transformEntry order name entry = Inr server"
    and "RegistryServer.Description server =
       (if length (DockerCatalogEntry.Description entry) > 100
        then take 97 (DockerCatalogEntry.Description entry) @ ''...''
        else DockerCatalogEntry.Description entry)"
    using transformEntry_description by blast
  then show ?thesis by (auto simp: suffix_def)
qed

section \<open>The claims of the specification\<close>

text \<open>
  Claim C1, as the code has it. For \<open>{{x}}-{{y|secret}}\<close>, \<open>convertBraces\<close> returns
  \<open>{x}-{y|secret}\<close> and \<open>extractVars\<close> returns a map with the keys \<open>x\<close> and \<open>y\<close>. More
  generally a placeholder \<open>{{name}}\<close> or \<open>{{name|modifiers}}\<close> without further braces, behind
  a text that does not end with \<open>{\<close>, becomes \<open>{name}\<close> or \<open>{name|modifiers}\<close>: the braces
  are halved and the modifiers stay.
\<close>

theorem placeholders_keep_modifiers:
  "convertBraces ''{{x}}-{{y|secret}}'' = ''{x}-{y|secret}'' \<and>
   (\<exists>variables. extractVars ''{{x}}-{{y|secret}}'' configMap = Inr variables \<and>
      dom variables = {''x'', ''y''}) \<and>
   (CHR ''{'' \<notin> set name \<union> set modifiers \<longrightarrow> CHR ''}'' \<notin> set name \<union> set modifiers \<longrightarrow>
    (pre = [] \<or> last pre \<noteq> CHR ''{'') \<longrightarrow>
      convertBraces (pre @ ''{{'' @ name @ ''}}'' @ rest) =
        convertBraces pre @ ''{'' @ name @ ''}'' @ convertBraces rest \<and>
      convertBraces (pre @ ''{{'' @ name @ ''|'' @ modifiers @ ''}}'' @ rest) =
        convertBraces pre @ ''{'' @ name @ ''|'' @ modifiers @ ''}'' @ convertBraces rest)"
proof (intro conjI impI)
  show "convertBraces ''{{x}}-{{y|secret}}'' = ''{x}-{y|secret}''"
    by (simp add: convertBraces_def)
next
  have "extractVars ''{{x}}-{{y|secret}}'' configMap =
      Inr [''x'' \<mapsto> inputSchemaFor configMap ''x'', ''y'' \<mapsto> inputSchemaFor configMap ''y'']"
    by (simp add: extractVars_def extractVars_loop_step strings_Split_def Let_def)
  then show "\<exists>variables. extractVars ''{{x}}-{{y|secret}}'' configMap = Inr variables \<and>
      dom variables = {''x'', ''y''}"
    by auto
next
  assume "CHR ''{'' \<notin> set name \<union> set modifiers" "CHR ''}'' \<notin> set name \<union> set modifiers"
    "pre = [] \<or> last pre \<noteq> CHR ''{''"
  then show "convertBraces (pre @ ''{{'' @ name @ ''}}'' @ rest) =
        convertBraces pre @ ''{'' @ name @ ''}'' @ convertBraces rest"
    by (intro convertBraces_placeholder) simp_all
next
  assume "CHR ''{'' \<notin> set name \<union> set modifiers" "CHR ''}'' \<notin> set name \<union> set modifiers"
    "pre = [] \<or> last pre \<noteq> CHR ''{''"
  then have "convertBraces (pre @ ''{{'' @ (name @ ''|'' @ modifiers) @ ''}}'' @ rest) =
        convertBraces pre @ ''{'' @ (name @ ''|'' @ modifiers) @ ''}'' @ convertBraces rest"
    by (intro convertBraces_placeholder) simp_all
  then show "convertBraces (pre @ ''{{'' @ name @ ''|'' @ modifiers @ ''}}'' @ rest) =
        convertBraces pre @ ''{'' @ name @ ''|'' @ modifiers @ ''}'' @ convertBraces rest"
    by simp
qed

theorem placeholders_keep_modifiers_witness:
  "CHR ''{'' \<notin> set ''y'' \<union> set ''secret'' \<and> CHR ''}'' \<notin> set ''y'' \<union> set ''secret'' \<and>
   last ''a-'' \<noteq> CHR ''{'' \<and>
   convertBraces (''a-'' @ ''{{'' @ ''y'' @ ''}}'' @ ''-b'') = ''a-{y}-b'' \<and>
   convertBraces (''a-'' @ ''{{'' @ ''y'' @ ''|'' @ ''secret'' @ ''}}'' @ ''-b'') = ''a-{y|secret}-b''"
proof -
  have plain: "convertBraces ''a-'' = ''a-''" "convertBraces ''-b'' = ''-b''"
    by (simp_all add: convertBraces_def)
  have free: "CHR ''{'' \<notin> set ''y'' \<union> set ''secret''" "CHR ''}'' \<notin> set ''y'' \<union> set ''secret''"
    "''a-'' = [] \<or> last ''a-'' \<noteq> CHR ''{''"
    by simp_all
  from placeholders_keep_modifiers [where name = "''y''" and modifiers = "''secret''"
      and pre = "''a-''" and rest = "''-b''"] free
  have "convertBraces (''a-'' @ ''{{'' @ ''y'' @ ''}}'' @ ''-b'') =
        convertBraces ''a-'' @ ''{'' @ ''y'' @ ''}'' @ convertBraces ''-b''"
    "convertBraces (''a-'' @ ''{{'' @ ''y'' @ ''|'' @ ''secret'' @ ''}}'' @ ''-b'') =
        convertBraces ''a-'' @ ''{'' @ ''y'' @ ''|'' @ ''secret'' @ ''}'' @ convertBraces ''-b''"
    by blast+
  with plain free show ?thesis by simp
qed

text \<open>
  Claim C1 as stated has the canonical form \<open>{x}-{y}\<close>, with the modifier removed;
  \<open>convertBraces\<close> replaces \<open>{{\<close> and \<open>}}\<close> and nothing else.
\<close>

theorem modifiers_removed_counterexample:
  "convertBraces ''{{x}}-{{y|secret}}'' \<noteq> ''{x}-{y}''"
  by (simp add: convertBraces_def)

text \<open>
  Claim C2, as the code has it. A key of the map that \<open>extractVars\<close> returns, when it does
  not itself contain \<open>{{\<close>, occurs in the canonical form behind a single opening brace:
  as \<open>{name}\<close>, or, when its placeholder has modifiers (so the value has a \<open>|\<close>), as
  \<open>{name|\<close>.
\<close>

theorem variable_names_in_canonical_form:
  assumes "extractVars v configMap = Inr variables" and "name \<in> dom variables"
    and "\<not> strings_Contains name ''{{''"
  shows "strings_Contains (convertBraces v) (''{'' @ name @ ''}'') \<or>
     (CHR ''|'' \<in> set v \<and> strings_Contains (convertBraces v) (''{'' @ name @ ''|''))"
proof -
  from assms(1,2) obtain pre content rest where
    "v = pre @ ''{{'' @ content @ ''}}'' @ rest" "pre = [] \<or> last pre \<noteq> CHR ''{''"
    "\<not> sublist ''}}'' (content @ ''}'')" "name = takeWhile (\<lambda>c. c \<noteq> CHR ''|'') content"
    unfolding extractVars_def
    using extractVars_loop_key [of v configMap 0 Map.empty variables name] by auto
  moreover from assms(3) have "\<not> sublist ''{{'' name"
    by (simp add: strings_Contains_sublist)
  ultimately show ?thesis
    unfolding strings_Contains_sublist by (rule canonical_token)
qed

theorem variable_names_in_canonical_form_witness:
  "extractVars ''{{x}}-{{y|secret}}'' Map.empty =
     Inr [''x'' \<mapsto> inputSchemaFor Map.empty ''x'', ''y'' \<mapsto> inputSchemaFor Map.empty ''y''] \<and>
   \<not> strings_Contains ''x'' ''{{'' \<and> \<not> strings_Contains ''y'' ''{{'' \<and>
   strings_Contains (convertBraces ''{{x}}-{{y|secret}}'') ''{x}'' \<and>
   CHR ''|'' \<in> set ''{{x}}-{{y|secret}}'' \<and>
   strings_Contains (convertBraces ''{{x}}-{{y|secret}}'') ''{y|''"
proof -
  let ?v = "''{{x}}-{{y|secret}}''"
  let ?variables = "[''x'' \<mapsto> inputSchemaFor Map.empty ''x'', ''y'' \<mapsto> inputSchemaFor Map.empty ''y'']"
  have run: "extractVars ?v Map.empty = Inr ?variables"
    by (simp add: extractVars_def extractVars_loop_step strings_Split_def Let_def)
  have keys: "''x'' \<in> dom ?variables" "''y'' \<in> dom ?variables"
    by simp_all
  have plain: "\<not> strings_Contains ''x'' ''{{''" "\<not> strings_Contains ''y'' ''{{''"
    by (simp_all add: strings_Contains_def)
  have no_bar: "\<not> strings_Contains (convertBraces ?v) (''{'' @ ''x'' @ ''|'')"
    and no_brace: "\<not> strings_Contains (convertBraces ?v) (''{'' @ ''y'' @ ''}'')"
    by (simp_all add: strings_Contains_def convertBraces_def)
  from variable_names_in_canonical_form [OF run keys(1) plain(1)] no_bar
  have "strings_Contains (convertBraces ?v) (''{'' @ ''x'' @ ''}'')"
    by blast
  moreover from variable_names_in_canonical_form [OF run keys(2) plain(2)] no_brace
  have "CHR ''|'' \<in> set ?v \<and> strings_Contains (convertBraces ?v) (''{'' @ ''y'' @ ''|'')"
    by blast
  ultimately show ?thesis
    using run plain by simp
qed

text \<open>
  Claim C2 as stated asks for the token \<open>{name}\<close>. It is missing for a placeholder with a
  modifier, which stays in the canonical form, and for a name that contains \<open>{{\<close>, which
  \<open>convertBraces\<close> halves.
\<close>

theorem variable_names_in_canonical_form_counterexample:
  "\<not> isl (extractVars ''{{y|secret}}'' Map.empty) \<and>
   ''y'' \<in> dom (projr (extractVars ''{{y|secret}}'' Map.empty)) \<and>
   \<not> strings_Contains (convertBraces ''{{y|secret}}'') (''{'' @ ''y'' @ ''}'') \<and>
   \<not> isl (extractVars ''{{a{{b}}'' Map.empty) \<and>
   ''a{{b'' \<in> dom (projr (extractVars ''{{a{{b}}'' Map.empty)) \<and>
   \<not> strings_Contains (convertBraces ''{{a{{b}}'') (''{'' @ ''a{{b'' @ ''}'')"
proof -
  have "extractVars ''{{y|secret}}'' Map.empty = Inr [''y'' \<mapsto> inputSchemaFor Map.empty ''y'']"
    by (simp add: extractVars_def extractVars_loop_step strings_Split_def Let_def)
  moreover have "extractVars ''{{a{{b}}'' Map.empty =
      Inr [''a{{b'' \<mapsto> inputSchemaFor Map.empty ''a{{b'']"
    by (simp add: extractVars_def extractVars_loop_step strings_Split_def Let_def)
  moreover have "\<not> strings_Contains (convertBraces ''{{y|secret}}'') (''{'' @ ''y'' @ ''}'')"
    "\<not> strings_Contains (convertBraces ''{{a{{b}}'') (''{'' @ ''a{{b'' @ ''}'')"
    by (simp_all add: strings_Contains_def convertBraces_def)
  ultimately show ?thesis by simp
qed

text \<open>
  Claim C3. For every catalog entry, \<open>transformEntry\<close> returns a server that has a non-empty
  list of packages or a non-empty list of remotes, and never both.
\<close>

theorem packages_xor_remotes:
  "\<exists>server. transformEntry order name entry = Inr server \<and>
     (Packages server \<noteq> [] \<or> Remotes server \<noteq> []) \<and>
     \<not> (Packages server \<noteq> [] \<and> Remotes server \<noteq> [])"
proof (cases "DockerCatalogEntry.Type entry = ''remote'' \<and> Remote entry \<noteq> None")
  case True
  then obtain remote where "Remote entry = Some remote" by auto
  with True transformEntry_remote [of entry remote order name] show ?thesis by auto
next
  case False
  then have "DockerCatalogEntry.Type entry \<noteq> ''remote'' \<or> Remote entry = None" by auto
  from transformEntry_package [OF this, of order name] show ?thesis by auto
qed

theorem packages_xor_remotes_witness:
  "\<exists>server. transformEntry no_orders ''e'' zero_DockerCatalogEntry = Inr server \<and>
     Packages server \<noteq> [] \<and> Remotes server = []"
proof -
  have "DockerCatalogEntry.Type zero_DockerCatalogEntry \<noteq> ''remote''"
    by (simp add: zero_DockerCatalogEntry_def)
  then have "\<exists>server pkg. transformEntry no_orders ''e'' zero_DockerCatalogEntry = Inr server \<and>
     Packages server = [pkg]"
    using transformEntry_package [of zero_DockerCatalogEntry no_orders "''e''"] by blast
  with packages_xor_remotes [of no_orders "''e''" zero_DockerCatalogEntry] show ?thesis
    by auto
qed

text \<open>
  Claim C4, as the code has it. The batch returns the descriptors of the entries whose type
  is not \<open>remote\<close>, in the order of the loop, each the result of its own call of
  \<open>transformEntry\<close>. No descriptor in the output carries the name of an entry of type
  \<open>remote\<close>, and every other entry of the catalog has its descriptor there. For an entry of
  type \<open>remote\<close> whose remote is present, \<open>transformEntry\<close> returns a descriptor with no
  packages.
\<close>

theorem remote_entries_excluded:
  assumes "range_order registry registryOrder"
  shows "\<exists>servers. main_servers orders registryOrder registry = Inr servers \<and>
     map Inr servers = map (\<lambda>ne. transformEntry (orders (fst ne)) (fst ne) (snd ne))
       (filter (\<lambda>ne. DockerCatalogEntry.Type (snd ne) \<noteq> ''remote'')
          (go_range registry registryOrder)) \<and>
     (\<forall>name entry. registry name = Some entry \<longrightarrow>
        (if DockerCatalogEntry.Type entry = ''remote''
         then ''com.docker.mcp/'' @ name \<notin> RegistryServer.Name ` set servers \<and>
              (\<forall>remote. Remote entry = Some remote \<longrightarrow>
                 (\<exists>server. transformEntry (orders name) name entry = Inr server \<and>
                    Packages server = []))
         else \<exists>server \<in> set servers. transformEntry (orders name) name entry = Inr server))"
proof -
  let ?kept = "filter (\<lambda>ne. DockerCatalogEntry.Type (snd ne) \<noteq> ''remote'')
          (go_range registry registryOrder)"
  obtain servers where run: "main_servers orders registryOrder registry = Inr servers"
    and out: "map Inr servers = map (\<lambda>ne. transformEntry (orders (fst ne)) (fst ne) (snd ne)) ?kept"
    using main_loop_eq [of orders "go_range registry registryOrder" "[]"]
    by (auto simp: main_servers_def)
  have from_kept: "\<exists>ne \<in> set ?kept. transformEntry (orders (fst ne)) (fst ne) (snd ne) = Inr server"
    if "server \<in> set servers" for server
  proof -
    from that have "Inr server \<in> set (map Inr servers :: (panic + RegistryServer) list)" by simp
    then show ?thesis unfolding out by fastforce
  qed
  have "\<forall>name entry. registry name = Some entry \<longrightarrow>
        (if DockerCatalogEntry.Type entry = ''remote''
         then ''com.docker.mcp/'' @ name \<notin> RegistryServer.Name ` set servers \<and>
              (\<forall>remote. Remote entry = Some remote \<longrightarrow>
                 (\<exists>server. transformEntry (orders name) name entry = Inr server \<and>
                    Packages server = []))
         else \<exists>server \<in> set servers. transformEntry (orders name) name entry = Inr server)"
  proof (intro allI impI)
    fix name entry
    assume entry: "registry name = Some entry"
    show "if DockerCatalogEntry.Type entry = ''remote''
         then ''com.docker.mcp/'' @ name \<notin> RegistryServer.Name ` set servers \<and>
              (\<forall>remote. Remote entry = Some remote \<longrightarrow>
                 (\<exists>server. transformEntry (orders name) name entry = Inr server \<and>
                    Packages server = []))
         else \<exists>server \<in> set servers. transformEntry (orders name) name entry = Inr server"
    proof (cases "DockerCatalogEntry.Type entry = ''remote''")
      case True
      have "''com.docker.mcp/'' @ name \<notin> RegistryServer.Name ` set servers"
      proof
        assume "''com.docker.mcp/'' @ name \<in> RegistryServer.Name ` set servers"
        then obtain server where server: "server \<in> set servers"
          "RegistryServer.Name server = ''com.docker.mcp/'' @ name" by auto
        from from_kept [OF server(1)] obtain ne where ne: "ne \<in> set ?kept"
          "transformEntry (orders (fst ne)) (fst ne) (snd ne) = Inr server" by blast
        from transformEntry_name [OF ne(2)] server(2) have "fst ne = name" by simp
        moreover from ne(1) have "registry (fst ne) = Some (snd ne)"
          "DockerCatalogEntry.Type (snd ne) \<noteq> ''remote''"
          using go_range_member [of "fst ne" "snd ne" registry registryOrder] by auto
        ultimately show False using entry True by simp
      qed
      moreover have "\<exists>server. transformEntry (orders name) name entry = Inr server \<and>
          Packages server = []" if "Remote entry = Some remote" for remote
        using transformEntry_remote [OF True that, of "orders name" name] by blast
      ultimately show ?thesis using True by simp
    next
      case False
      from entry assms have "(name, entry) \<in> set (go_range registry registryOrder)"
        by (simp add: go_range_complete)
      with False have "(name, entry) \<in> set ?kept" by simp
      then have "transformEntry (orders name) name entry \<in> set (map Inr servers)"
        unfolding out by force
      with False show ?thesis by auto
    qed
  qed
  with run out show ?thesis by blast
qed

theorem remote_entries_excluded_witness:
  "range_order
     [''a'' \<mapsto> zero_DockerCatalogEntry,
      ''r'' \<mapsto> zero_DockerCatalogEntry\<lparr>DockerCatalogEntry.Type := ''remote''\<rparr>]
     [''r'', ''a''] \<and>
   (\<exists>servers.
      main_servers (\<lambda>name. no_orders) [''r'', ''a'']
        [''a'' \<mapsto> zero_DockerCatalogEntry,
         ''r'' \<mapsto> zero_DockerCatalogEntry\<lparr>DockerCatalogEntry.Type := ''remote''\<rparr>]
        = Inr servers \<and>
      map RegistryServer.Name servers = [''com.docker.mcp/a''])"
proof -
  let ?registry = "[''a'' \<mapsto> zero_DockerCatalogEntry,
      ''r'' \<mapsto> zero_DockerCatalogEntry\<lparr>DockerCatalogEntry.Type := ''remote''\<rparr>]"
  have order: "range_order ?registry [''r'', ''a'']"
    by (auto simp: range_order_def)
  have kept: "filter (\<lambda>ne. DockerCatalogEntry.Type (snd ne) \<noteq> ''remote'')
      (go_range ?registry [''r'', ''a'']) = [(''a'', zero_DockerCatalogEntry)]"
    by (simp add: go_range_def zero_DockerCatalogEntry_def)
  from remote_entries_excluded [OF order, of "\<lambda>name. no_orders"]
  obtain servers where run: "main_servers (\<lambda>name. no_orders) [''r'', ''a''] ?registry = Inr servers"
    and out: "map Inr servers = [transformEntry no_orders ''a'' zero_DockerCatalogEntry]"
    unfolding kept by auto
  from out obtain server where "servers = [server]"
    "transformEntry no_orders ''a'' zero_DockerCatalogEntry = Inr server"
    by (cases servers) auto
  with transformEntry_name [of no_orders "''a''" zero_DockerCatalogEntry server] run order
  show ?thesis by simp
qed

text \<open>
  Claim C4 as stated asks for no packages on every entry of type \<open>remote\<close>. An entry of that
  type whose remote is nil does not take the remote branch: \<open>transformEntry\<close> builds its
  package.
\<close>

theorem remote_without_descriptor_counterexample:
  "\<not> isl (transformEntry no_orders ''r''
            (zero_DockerCatalogEntry\<lparr>DockerCatalogEntry.Type := ''remote''\<rparr>)) \<and>
   Packages (projr (transformEntry no_orders ''r''
            (zero_DockerCatalogEntry\<lparr>DockerCatalogEntry.Type := ''remote''\<rparr>))) \<noteq> []"
  by (simp add: transformEntry_def truncateDescription_def and_then_def Let_def
      zero_DockerCatalogEntry_def zero_RegistryServer_def entryPackage_def entryRepository_def)

text \<open>
  Claim C5. The claim counts characters, as the comment at line 211 does (\<open>Truncate
  description to 100 characters max\<close>): a description of at most 100 characters stays as it is.
  The code compares \<open>len(description)\<close>, a number of bytes, with 100 and cuts at byte 97
  (lines 213 and 214). A description of 34 characters of three bytes each has 102 bytes: the
  code cuts it behind the first byte of its 33rd character and appends \<open>...\<close>.
\<close>

theorem description_cut_inside_character:
  "characters (concat (replicate 34 [CHR 0xE4, CHR 0xB8, CHR 0xAD])) = 34 \<and>
   length (concat (replicate 34 [CHR 0xE4, CHR 0xB8, CHR 0xAD])) = 102 \<and>
   \<not> isl (transformEntry no_orders ''e''
            (zero_DockerCatalogEntry
               \<lparr>DockerCatalogEntry.Description :=
                  concat (replicate 34 [CHR 0xE4, CHR 0xB8, CHR 0xAD])\<rparr>)) \<and>
   RegistryServer.Description
     (projr (transformEntry no_orders ''e''
               (zero_DockerCatalogEntry
                  \<lparr>DockerCatalogEntry.Description :=
                     concat (replicate 34 [CHR 0xE4, CHR 0xB8, CHR 0xAD])\<rparr>))) =
     concat (replicate 32 [CHR 0xE4, CHR 0xB8, CHR 0xAD]) @ [CHR 0xE4] @ ''...'' \<and>
   RegistryServer.Description
     (projr (transformEntry no_orders ''e''
               (zero_DockerCatalogEntry
                  \<lparr>DockerCatalogEntry.Description :=
                     concat (replicate 34 [CHR 0xE4, CHR 0xB8, CHR 0xAD])\<rparr>))) \<noteq>
     concat (replicate 34 [CHR 0xE4, CHR 0xB8, CHR 0xAD])"
proof -
  let ?d = "concat (replicate 34 [CHR 0xE4, CHR 0xB8, CHR 0xAD])"
  let ?out = "concat (replicate 32 [CHR 0xE4, CHR 0xB8, CHR 0xAD]) @ [CHR 0xE4] @ ''...''"
  let ?entry = "zero_DockerCatalogEntry\<lparr>DockerCatalogEntry.Description := ?d\<rparr>"
  have chars: "characters ?d = 34"
    by code_simp
  have len: "length ?d = 102"
    by code_simp
  have cut: "take 97 ?d @ ''...'' = ?out"
    by code_simp
  have shorter: "length ?out = 100"
    by code_simp
  have "DockerCatalogEntry.Description ?entry = ?d"
    by simp
  with transformEntry_description [of no_orders "''e''" ?entry] len cut
  obtain server where server: "transformEntry no_orders ''e'' ?entry = Inr server"
    "RegistryServer.Description server = ?out"
    by auto
  have "?out \<noteq> ?d"
  proof
    assume "?out = ?d"
    then have "length ?out = length ?d"
      by (rule arg_cong)
    with shorter len show False
      by simp
  qed
  with server chars len show ?thesis
    by simp
qed

text \<open>
  Claim C6. For an entry that does not take the remote branch, the environment variables of
  the package are those of the entry's \<open>env\<close> list followed by one descriptor per secret, in
  order. The descriptor of the secret \<open>{name, env}\<close> has the name \<open>env\<close>, the value
  \<open>{name}\<close>, and a variables map with the single key \<open>name\<close>, marked secret and required.
  The config blocks of the entry play no part in it.
\<close>

theorem secrets_become_env_descriptors:
  assumes "DockerCatalogEntry.Type entry \<noteq> ''remote'' \<or> Remote entry = None"
  shows "\<exists>server pkg. transformEntry order name entry = Inr server \<and> Packages server = [pkg] \<and>
     length (EnvironmentVariables pkg) =
       length (DockerCatalogEntry.Env entry) + length (Secrets entry) \<and>
     (\<forall>i < length (Secrets entry).
        let secret = Secrets entry ! i;
            kv = EnvironmentVariables pkg ! (length (DockerCatalogEntry.Env entry) + i)
        in KeyValueInput.Name kv = Secret.Env secret \<and>
           KeyValueInput.Value kv = ''{'' @ Secret.Name secret @ ''}'' \<and>
           dom (KeyValueInput.Variables kv) = {Secret.Name secret} \<and>
           (\<exists>schema. KeyValueInput.Variables kv (Secret.Name secret) = Some schema \<and>
              InputSchema.IsSecret schema \<and> InputSchema.IsRequired schema))"
proof -
  obtain server pkg where server: "transformEntry order name entry = Inr server"
    "entryPackage (buildConfigMap (PropertiesOrder order) (Config entry)) entry = Inr pkg"
    "Packages server = [pkg]"
    using transformEntry_package [OF assms] by blast
  obtain envs where envs: "length envs = length (DockerCatalogEntry.Env entry)"
    "EnvironmentVariables pkg = envs @ map secretKeyValue (Secrets entry)"
    using entryPackage_returns [of "buildConfigMap (PropertiesOrder order) (Config entry)" entry]
      server(2) by auto
  have "KeyValueInput.Name (secretKeyValue secret) = Secret.Env secret \<and>
        KeyValueInput.Value (secretKeyValue secret) = ''{'' @ Secret.Name secret @ ''}'' \<and>
        dom (KeyValueInput.Variables (secretKeyValue secret)) = {Secret.Name secret} \<and>
        (\<exists>schema. KeyValueInput.Variables (secretKeyValue secret) (Secret.Name secret) = Some schema \<and>
           InputSchema.IsSecret schema \<and> InputSchema.IsRequired schema)" for secret
    by (simp add: secretKeyValue_def zero_KeyValueInput_def zero_InputSchema_def Let_def)
  then have "\<forall>i < length (Secrets entry).
        let secret = Secrets entry ! i;
            kv = EnvironmentVariables pkg ! (length (DockerCatalogEntry.Env entry) + i)
        in KeyValueInput.Name kv = Secret.Env secret \<and>
           KeyValueInput.Value kv = ''{'' @ Secret.Name secret @ ''}'' \<and>
           dom (KeyValueInput.Variables kv) = {Secret.Name secret} \<and>
           (\<exists>schema. KeyValueInput.Variables kv (Secret.Name secret) = Some schema \<and>
              InputSchema.IsSecret schema \<and> InputSchema.IsRequired schema)"
    using envs by (simp add: Let_def nth_append)
  moreover have "length (EnvironmentVariables pkg) =
       length (DockerCatalogEntry.Env entry) + length (Secrets entry)"
    using envs by simp
  ultimately show ?thesis
    using server by blast
qed

theorem secrets_become_env_descriptors_witness:
  "\<exists>server pkg kv schema.
     transformEntry no_orders ''e''
       (zero_DockerCatalogEntry
          \<lparr>Secrets := [\<lparr>Secret.Name = ''API_KEY'', Secret.Env = ''KEY_ENV'', Example = []\<rparr>]\<rparr>)
       = Inr server \<and>
     Packages server = [pkg] \<and> EnvironmentVariables pkg = [kv] \<and>
     KeyValueInput.Name kv = ''KEY_ENV'' \<and> KeyValueInput.Value kv = ''{API_KEY}'' \<and>
     dom (KeyValueInput.Variables kv) = {''API_KEY''} \<and>
     KeyValueInput.Variables kv ''API_KEY'' = Some schema \<and>
     InputSchema.IsSecret schema \<and> InputSchema.IsRequired schema"
proof -
  let ?entry = "zero_DockerCatalogEntry
          \<lparr>Secrets := [\<lparr>Secret.Name = ''API_KEY'', Secret.Env = ''KEY_ENV'', Example = []\<rparr>]\<rparr>"
  have "DockerCatalogEntry.Type ?entry \<noteq> ''remote'' \<or> Remote ?entry = None"
    by (simp add: zero_DockerCatalogEntry_def)
  from secrets_become_env_descriptors [OF this, of no_orders "''e''"]
  obtain server pkg where *: "transformEntry no_orders ''e'' ?entry = Inr server"
    "Packages server = [pkg]" "length (EnvironmentVariables pkg) = 1"
    and **: "KeyValueInput.Name (EnvironmentVariables pkg ! 0) = ''KEY_ENV'' \<and>
       KeyValueInput.Value (EnvironmentVariables pkg ! 0) = ''{API_KEY}'' \<and>
       dom (KeyValueInput.Variables (EnvironmentVariables pkg ! 0)) = {''API_KEY''} \<and>
       (\<exists>schema. KeyValueInput.Variables (EnvironmentVariables pkg ! 0) ''API_KEY'' = Some schema \<and>
          InputSchema.IsSecret schema \<and> InputSchema.IsRequired schema)"
    by (auto simp: zero_DockerCatalogEntry_def Let_def)
  from *(3) obtain kv where "EnvironmentVariables pkg = [kv]"
    by (cases "EnvironmentVariables pkg") auto
  with * ** show ?thesis by auto
qed

text \<open>
  Claim C7. On a string that contains neither \<open>{{\<close> nor \<open>}}\<close>, \<open>convertBraces\<close> is the
  identity and \<open>extractVars\<close> returns the empty map.
\<close>

theorem no_doubled_braces:
  assumes "\<not> strings_Contains s ''{{''" and "\<not> strings_Contains s ''}}''"
  shows "convertBraces s = s \<and> extractVars s configMap = Inr Map.empty"
proof
  from assms show "convertBraces s = s"
    by (simp add: convertBraces_def strings_Contains_def strings_ReplaceAll_absent)
  from assms(1) show "extractVars s configMap = Inr Map.empty"
    by (simp add: extractVars_def extractVars_loop_step strings_Contains_def)
qed

theorem no_doubled_braces_witness:
  "\<not> strings_Contains ''a{b}-c'' ''{{'' \<and> \<not> strings_Contains ''a{b}-c'' ''}}'' \<and>
   convertBraces ''a{b}-c'' = ''a{b}-c'' \<and> extractVars ''a{b}-c'' Map.empty = Inr Map.empty"
  using no_doubled_braces [of "''a{b}-c''" Map.empty]
  by (simp add: strings_Contains_def)

text \<open>
  Claim C8. \<open>extractVars\<close> returns on every string, without a panic. When an opening
  \<open>{{\<close> has no \<open>}}\<close> behind it, the scan stops there: the result is that of the text before
  the opening, so neither that opening nor anything after it yields a variable.
  \<open>buildConfigMap\<close> leaves the index unchanged at a property whose value is not an object,
  and every entry of the index comes from a property that is one. \<open>transformEntry\<close> and the
  batch return on every input.
\<close>

theorem malformed_input_degrades_silently:
  "(\<exists>variables. extractVars v configMap = Inr variables) \<and>
   (\<not> strings_Contains rest ''}}'' \<longrightarrow>
      extractVars (pre @ ''{{'' @ rest) configMap = extractVars pre configMap) \<and>
   ((\<forall>propMap. val \<noteq> JObject propMap) \<longrightarrow> addProperty cfg (key, val) result = result) \<and>
   (\<forall>fullKey propMap. buildConfigMap order configs fullKey = Some propMap \<longrightarrow>
      (\<exists>cfg \<in> set configs. \<exists>key. fullKey = Config.Name cfg @ ''.'' @ key \<and>
         Properties cfg key = Some (JObject propMap))) \<and>
   (\<exists>server. transformEntry orders name entry = Inr server) \<and>
   (\<exists>servers. main_servers allOrders registryOrder registry = Inr servers)"
proof (intro conjI impI allI)
  show "\<exists>variables. extractVars v configMap = Inr variables"
    by (rule extractVars_returns)
next
  assume "\<not> strings_Contains rest ''}}''"
  then have "\<not> sublist ''}}'' rest"
    by (simp add: strings_Contains_sublist)
  then show "extractVars (pre @ ''{{'' @ rest) configMap = extractVars pre configMap"
    unfolding extractVars_def by (intro extractVars_loop_unterminated) simp_all
next
  assume "\<forall>propMap. val \<noteq> JObject propMap"
  then show "addProperty cfg (key, val) result = result"
    by (rule addProperty_skips)
next
  fix fullKey propMap
  assume "buildConfigMap order configs fullKey = Some propMap"
  then show "\<exists>cfg \<in> set configs. \<exists>key. fullKey = Config.Name cfg @ ''.'' @ key \<and>
         Properties cfg key = Some (JObject propMap)"
    unfolding buildConfigMap_def using buildConfigMap_from_source by fastforce
next
  show "\<exists>server. transformEntry orders name entry = Inr server"
    by (rule transformEntry_returns)
next
  show "\<exists>servers. main_servers allOrders registryOrder registry = Inr servers"
    by (rule main_servers_returns)
qed


theorem malformed_input_degrades_silently_witness:
  "\<not> strings_Contains ''b'' ''}}'' \<and>
   extractVars (''{{a}}-'' @ ''{{'' @ ''b'') Map.empty = extractVars ''{{a}}-'' Map.empty \<and>
   (\<forall>propMap. JString ''localhost'' \<noteq> JObject propMap) \<and>
   addProperty
     \<lparr>Config.Name = ''srv'', Config.Description = [], Config.Type = ''object'',
        Properties = [''port'' \<mapsto> JObject [''description'' \<mapsto> JString ''the port''],
                      ''host'' \<mapsto> JString ''localhost''],
        Required = []\<rparr>
     (''host'', JString ''localhost'') Map.empty = Map.empty \<and>
   buildConfigMap (\<lambda>i. [''port'', ''host''])
     [\<lparr>Config.Name = ''srv'', Config.Description = [], Config.Type = ''object'',
        Properties = [''port'' \<mapsto> JObject [''description'' \<mapsto> JString ''the port''],
                      ''host'' \<mapsto> JString ''localhost''],
        Required = []\<rparr>]
     ''srv.port'' = Some [''description'' \<mapsto> JString ''the port''] \<and>
   (\<exists>cfg \<in> set
       [\<lparr>Config.Name = ''srv'', Config.Description = [], Config.Type = ''object'',
        Properties = [''port'' \<mapsto> JObject [''description'' \<mapsto> JString ''the port''],
                      ''host'' \<mapsto> JString ''localhost''],
        Required = []\<rparr>].
      \<exists>key. ''srv.port'' = Config.Name cfg @ ''.'' @ key \<and>
        Properties cfg key = Some (JObject [''description'' \<mapsto> JString ''the port'']))"
proof -
  let ?cfg = "\<lparr>Config.Name = ''srv'', Config.Description = [], Config.Type = ''object'',
        Properties = [''port'' \<mapsto> JObject [''description'' \<mapsto> JString ''the port''],
                      ''host'' \<mapsto> JString ''localhost''],
        Required = []\<rparr>"
  have open_end: "\<not> strings_Contains ''b'' ''}}''"
    by (simp add: strings_Contains_def)
  have plain: "\<forall>propMap. JString ''localhost'' \<noteq> JObject propMap"
    by simp
  have indexed: "buildConfigMap (\<lambda>i. [''port'', ''host'']) [?cfg] ''srv.port'' =
      Some [''description'' \<mapsto> JString ''the port'']"
    by (simp add: buildConfigMap_def go_range_def addProperty_def)
  from malformed_input_degrades_silently [where rest = "''b''" and pre = "''{{a}}-''"
      and configMap = Map.empty and val = "JString ''localhost''" and cfg = ?cfg
      and key = "''host''" and result = Map.empty and order = "\<lambda>i. [''port'', ''host'']"
      and configs = "[?cfg]"] open_end plain indexed
  show ?thesis by blast
qed

text \<open>
  Claim C9, as the code has it. Two runs of \<open>transformEntry\<close> on the same name and entry may
  differ only in the orders in which their \<open>range\<close> loops visit the maps. For an entry whose
  type is not \<open>remote\<close> (the only entries the batch transforms), and for a remote with at most
  one header, both runs return the same descriptor. So two runs of the batch that visit the
  catalog in the same order return the same list of descriptors.
\<close>

theorem deterministic_for_fixed_order:
  "(valid_orders entry order \<longrightarrow> valid_orders entry order' \<longrightarrow>
      (DockerCatalogEntry.Type entry \<noteq> ''remote'' \<or>
       (\<forall>remote. Remote entry = Some remote \<longrightarrow> (\<exists>k. dom (Remote.Headers remote) \<subseteq> {k}))) \<longrightarrow>
      transformEntry order name entry = transformEntry order' name entry) \<and>
   ((\<forall>name entry. registry name = Some entry \<longrightarrow>
       valid_orders entry (orders name) \<and> valid_orders entry (orders' name)) \<longrightarrow>
      main_servers orders registryOrder registry = main_servers orders' registryOrder registry)"
proof (intro conjI impI)
  assume "valid_orders entry order" "valid_orders entry order'"
    "DockerCatalogEntry.Type entry \<noteq> ''remote'' \<or>
       (\<forall>remote. Remote entry = Some remote \<longrightarrow> (\<exists>k. dom (Remote.Headers remote) \<subseteq> {k}))"
  then show "transformEntry order name entry = transformEntry order' name entry"
    by (rule transformEntry_order)
next
  assume valid: "\<forall>name entry. registry name = Some entry \<longrightarrow>
       valid_orders entry (orders name) \<and> valid_orders entry (orders' name)"
  show "main_servers orders registryOrder registry = main_servers orders' registryOrder registry"
    unfolding main_servers_def
  proof (rule main_loop_order)
    fix ne
    assume "ne \<in> set (go_range registry registryOrder)"
      and local: "DockerCatalogEntry.Type (snd ne) \<noteq> ''remote''"
    then have "registry (fst ne) = Some (snd ne)"
      using go_range_member [of "fst ne" "snd ne" registry registryOrder] by simp
    with valid have "valid_orders (snd ne) (orders (fst ne))" "valid_orders (snd ne) (orders' (fst ne))"
      by blast+
    then show "transformEntry (orders (fst ne)) (fst ne) (snd ne) =
       transformEntry (orders' (fst ne)) (fst ne) (snd ne)"
      using local by (intro transformEntry_order) simp_all
  qed
qed

theorem deterministic_for_fixed_order_witness:
  "valid_orders
     (zero_DockerCatalogEntry
        \<lparr>DockerCatalogEntry.Env := [\<lparr>EnvVar.Name = ''PORT'', EnvVar.Value = ''{{srv.port}}''\<rparr>],
         Config := [\<lparr>Config.Name = ''srv'', Config.Description = [], Config.Type = ''object'',
                      Properties = [''port'' \<mapsto> JObject [''description'' \<mapsto> JString ''the port''],
                                    ''host'' \<mapsto> JString ''localhost''],
                      Required = []\<rparr>]\<rparr>)
     (no_orders\<lparr>PropertiesOrder := (\<lambda>i. [''port'', ''host''])\<rparr>) \<and>
   valid_orders
     (zero_DockerCatalogEntry
        \<lparr>DockerCatalogEntry.Env := [\<lparr>EnvVar.Name = ''PORT'', EnvVar.Value = ''{{srv.port}}''\<rparr>],
         Config := [\<lparr>Config.Name = ''srv'', Config.Description = [], Config.Type = ''object'',
                      Properties = [''port'' \<mapsto> JObject [''description'' \<mapsto> JString ''the port''],
                                    ''host'' \<mapsto> JString ''localhost''],
                      Required = []\<rparr>]\<rparr>)
     (no_orders\<lparr>PropertiesOrder := (\<lambda>i. [''host'', ''port''])\<rparr>) \<and>
   transformEntry (no_orders\<lparr>PropertiesOrder := (\<lambda>i. [''port'', ''host''])\<rparr>) ''e''
     (zero_DockerCatalogEntry
        \<lparr>DockerCatalogEntry.Env := [\<lparr>EnvVar.Name = ''PORT'', EnvVar.Value = ''{{srv.port}}''\<rparr>],
         Config := [\<lparr>Config.Name = ''srv'', Config.Description = [], Config.Type = ''object'',
                      Properties = [''port'' \<mapsto> JObject [''description'' \<mapsto> JString ''the port''],
                                    ''host'' \<mapsto> JString ''localhost''],
                      Required = []\<rparr>]\<rparr>) =
   transformEntry (no_orders\<lparr>PropertiesOrder := (\<lambda>i. [''host'', ''port''])\<rparr>) ''e''
     (zero_DockerCatalogEntry
        \<lparr>DockerCatalogEntry.Env := [\<lparr>EnvVar.Name = ''PORT'', EnvVar.Value = ''{{srv.port}}''\<rparr>],
         Config := [\<lparr>Config.Name = ''srv'', Config.Description = [], Config.Type = ''object'',
                      Properties = [''port'' \<mapsto> JObject [''description'' \<mapsto> JString ''the port''],
                                    ''host'' \<mapsto> JString ''localhost''],
                      Required = []\<rparr>]\<rparr>) \<and>
   main_servers (\<lambda>name. no_orders\<lparr>PropertiesOrder := (\<lambda>i. [''port'', ''host''])\<rparr>) [''e'']
     [''e'' \<mapsto> zero_DockerCatalogEntry
        \<lparr>DockerCatalogEntry.Env := [\<lparr>EnvVar.Name = ''PORT'', EnvVar.Value = ''{{srv.port}}''\<rparr>],
         Config := [\<lparr>Config.Name = ''srv'', Config.Description = [], Config.Type = ''object'',
                      Properties = [''port'' \<mapsto> JObject [''description'' \<mapsto> JString ''the port''],
                                    ''host'' \<mapsto> JString ''localhost''],
                      Required = []\<rparr>]\<rparr>] =
   main_servers (\<lambda>name. no_orders\<lparr>PropertiesOrder := (\<lambda>i. [''host'', ''port''])\<rparr>) [''e'']
     [''e'' \<mapsto> zero_DockerCatalogEntry
        \<lparr>DockerCatalogEntry.Env := [\<lparr>EnvVar.Name = ''PORT'', EnvVar.Value = ''{{srv.port}}''\<rparr>],
         Config := [\<lparr>Config.Name = ''srv'', Config.Description = [], Config.Type = ''object'',
                      Properties = [''port'' \<mapsto> JObject [''description'' \<mapsto> JString ''the port''],
                                    ''host'' \<mapsto> JString ''localhost''],
                      Required = []\<rparr>]\<rparr>]"
proof -
  let ?entry = "zero_DockerCatalogEntry
        \<lparr>DockerCatalogEntry.Env := [\<lparr>EnvVar.Name = ''PORT'', EnvVar.Value = ''{{srv.port}}''\<rparr>],
         Config := [\<lparr>Config.Name = ''srv'', Config.Description = [], Config.Type = ''object'',
                      Properties = [''port'' \<mapsto> JObject [''description'' \<mapsto> JString ''the port''],
                                    ''host'' \<mapsto> JString ''localhost''],
                      Required = []\<rparr>]\<rparr>"
  let ?order = "no_orders\<lparr>PropertiesOrder := (\<lambda>i. [''port'', ''host''])\<rparr>"
  let ?order' = "no_orders\<lparr>PropertiesOrder := (\<lambda>i. [''host'', ''port''])\<rparr>"
  have valid: "valid_orders ?entry ?order" "valid_orders ?entry ?order'"
    by (auto simp: valid_orders_def range_order_def zero_DockerCatalogEntry_def no_orders_def)
  have local: "DockerCatalogEntry.Type ?entry \<noteq> ''remote''"
    by (simp add: zero_DockerCatalogEntry_def)
  have all: "\<forall>name entry. [''e'' \<mapsto> ?entry] name = Some entry \<longrightarrow>
       valid_orders entry ((\<lambda>name. ?order) name) \<and> valid_orders entry ((\<lambda>name. ?order') name)"
    using valid by (auto split: if_splits)
  from deterministic_for_fixed_order [of ?entry ?order ?order' "''e''" "[''e'' \<mapsto> ?entry]"
      "\<lambda>name. ?order" "\<lambda>name. ?order'" "[''e'']"] valid local all
  show ?thesis by blast
qed

text \<open>
  Claim C9 as stated, for every entry: the headers of a remote are appended in the order of
  the \<open>range\<close> loop over the map (lines 261 to 266), so two runs on a remote entry with two
  headers can return different descriptors.
\<close>

theorem header_order_counterexample:
  "valid_orders
     (zero_DockerCatalogEntry
        \<lparr>DockerCatalogEntry.Type := ''remote'',
         Remote := Some \<lparr>TransportType = ''sse'', Remote.URL = ''https://example.com/mcp'',
                          Remote.Headers = [''A'' \<mapsto> ''1'', ''B'' \<mapsto> ''2'']\<rparr>\<rparr>)
     (no_orders\<lparr>HeadersOrder := [''A'', ''B'']\<rparr>) \<and>
   valid_orders
     (zero_DockerCatalogEntry
        \<lparr>DockerCatalogEntry.Type := ''remote'',
         Remote := Some \<lparr>TransportType = ''sse'', Remote.URL = ''https://example.com/mcp'',
                          Remote.Headers = [''A'' \<mapsto> ''1'', ''B'' \<mapsto> ''2'']\<rparr>\<rparr>)
     (no_orders\<lparr>HeadersOrder := [''B'', ''A'']\<rparr>) \<and>
   transformEntry (no_orders\<lparr>HeadersOrder := [''A'', ''B'']\<rparr>) ''r''
     (zero_DockerCatalogEntry
        \<lparr>DockerCatalogEntry.Type := ''remote'',
         Remote := Some \<lparr>TransportType = ''sse'', Remote.URL = ''https://example.com/mcp'',
                          Remote.Headers = [''A'' \<mapsto> ''1'', ''B'' \<mapsto> ''2'']\<rparr>\<rparr>)
   \<noteq>
   transformEntry (no_orders\<lparr>HeadersOrder := [''B'', ''A'']\<rparr>) ''r''
     (zero_DockerCatalogEntry
        \<lparr>DockerCatalogEntry.Type := ''remote'',
         Remote := Some \<lparr>TransportType = ''sse'', Remote.URL = ''https://example.com/mcp'',
                          Remote.Headers = [''A'' \<mapsto> ''1'', ''B'' \<mapsto> ''2'']\<rparr>\<rparr>)"
proof -
  let ?remote = "\<lparr>TransportType = ''sse'', Remote.URL = ''https://example.com/mcp'',
                          Remote.Headers = [''A'' \<mapsto> ''1'', ''B'' \<mapsto> ''2'']\<rparr>"
  let ?entry = "zero_DockerCatalogEntry
        \<lparr>DockerCatalogEntry.Type := ''remote'', Remote := Some ?remote\<rparr>"
  have valid: "valid_orders ?entry (no_orders\<lparr>HeadersOrder := [''A'', ''B'']\<rparr>)"
    "valid_orders ?entry (no_orders\<lparr>HeadersOrder := [''B'', ''A'']\<rparr>)"
    by (auto simp: valid_orders_def range_order_def zero_DockerCatalogEntry_def no_orders_def)
  have entry: "DockerCatalogEntry.Type ?entry = ''remote''" "Remote ?entry = Some ?remote"
    by (simp_all add: zero_DockerCatalogEntry_def)
  have names: "map KeyValueInput.Name (Transport.Headers (remoteTransport [''A'', ''B''] ?remote)) = [''A'', ''B'']"
    "map KeyValueInput.Name (Transport.Headers (remoteTransport [''B'', ''A''] ?remote)) = [''B'', ''A'']"
    by (simp_all add: remoteTransport_def go_range_def zero_Transport_def zero_KeyValueInput_def)
  have "transformEntry (no_orders\<lparr>HeadersOrder := [''A'', ''B'']\<rparr>) ''r'' ?entry \<noteq>
        transformEntry (no_orders\<lparr>HeadersOrder := [''B'', ''A'']\<rparr>) ''r'' ?entry"
  proof
    assume eq: "transformEntry (no_orders\<lparr>HeadersOrder := [''A'', ''B'']\<rparr>) ''r'' ?entry =
        transformEntry (no_orders\<lparr>HeadersOrder := [''B'', ''A'']\<rparr>) ''r'' ?entry"
    from transformEntry_remote [OF entry, of "no_orders\<lparr>HeadersOrder := [''A'', ''B'']\<rparr>" "''r''"]
      transformEntry_remote [OF entry, of "no_orders\<lparr>HeadersOrder := [''B'', ''A'']\<rparr>" "''r''"]
    have "remoteTransport [''A'', ''B''] ?remote = remoteTransport [''B'', ''A''] ?remote"
      unfolding eq by auto
    with names show False by simp
  qed
  with valid show ?thesis by blast
qed

text \<open>
  Claim C10. \<open>extractVars\<close> terminates on every input: the recursion of its loop is
  well-founded at every argument. When an iteration finds an opening \<open>{{\<close> at \<open>idx = i + start\<close>
  and the next \<open>}}\<close> at \<open>endIdx = e + idx\<close>, then \<open>endIdx \<ge> start\<close>, the next scan position
  \<open>endIdx + 2\<close> is at least two bytes past \<open>start\<close>, and the unscanned suffix is strictly
  shorter.
\<close>

theorem extractVars_terminates:
  "extractVars_loop_dom (v, configMap, start, variables) \<and>
   (\<forall>rest i rest' e.
      go_slice v start (length v) = Inr rest \<longrightarrow> strings_Index rest ''{{'' = Some i \<longrightarrow>
      go_slice v (i + start) (length v) = Inr rest' \<longrightarrow> strings_Index rest' ''}}'' = Some e \<longrightarrow>
      start \<le> e + (i + start) \<and> start + 2 \<le> e + (i + start) + 2 \<and>
      length v - (e + (i + start) + 2) < length v - start)"
proof
  show "extractVars_loop_dom (v, configMap, start, variables)"
    by (rule extractVars_loop_total)
next
  show "\<forall>rest i rest' e.
      go_slice v start (length v) = Inr rest \<longrightarrow> strings_Index rest ''{{'' = Some i \<longrightarrow>
      go_slice v (i + start) (length v) = Inr rest' \<longrightarrow> strings_Index rest' ''}}'' = Some e \<longrightarrow>
      start \<le> e + (i + start) \<and> start + 2 \<le> e + (i + start) + 2 \<and>
      length v - (e + (i + start) + 2) < length v - start"
    using scan_progress [of v start] by fastforce
qed

theorem extractVars_terminates_witness:
  "extractVars_loop_dom (''{{x}}'', Map.empty, 0, Map.empty) \<and>
   go_slice ''{{x}}'' 0 (length ''{{x}}'') = Inr ''{{x}}'' \<and>
   strings_Index ''{{x}}'' ''{{'' = Some 0 \<and> strings_Index ''{{x}}'' ''}}'' = Some 3 \<and>
   (0::nat) \<le> 3 + (0 + 0) \<and> (0::nat) + 2 \<le> 3 + (0 + 0) + 2 \<and>
   length ''{{x}}'' - (3 + (0 + 0) + 2) < length ''{{x}}'' - 0"
  using extractVars_terminates [of "''{{x}}''" Map.empty 0 Map.empty]
  by (simp add: go_slice_def)

end
